theory Spec2Isabelle
  imports Main "HOL-Library.AList" "HOL-Library.Sublist"
begin

section \<open>Data model (model.py, schemas.py)\<close>

text \<open>
  The issue tracker keeps one table of issues. The table is modelled by the list of its
  rows in insertion order, the session by explicit state passing: every endpoint takes the
  store and returns the store after its commit. An endpoint that raises leaves the store as
  it was, since nothing is committed. Python strings are modelled as HOL strings (ASCII
  text, one character per code point), Python integers as \<open>int\<close>, a point in time as an
  integer.
\<close>

datatype StatusEnum = OPEN | IN_PROGRESS | RESOLVED | CLOSED

datatype PriorityEnum = LOW | MEDIUM | HIGH | CRITICAL

text \<open>The members of the two enumerations in declaration order, and their string values.\<close>

definition StatusEnum_members :: "StatusEnum list" where
  "StatusEnum_members = [OPEN, IN_PROGRESS, RESOLVED, CLOSED]"

definition PriorityEnum_members :: "PriorityEnum list" where
  "PriorityEnum_members = [LOW, MEDIUM, HIGH, CRITICAL]"

fun status_value :: "StatusEnum \<Rightarrow> string" where
  "status_value OPEN = ''open''"
| "status_value IN_PROGRESS = ''in_progress''"
| "status_value RESOLVED = ''resolved''"
| "status_value CLOSED = ''closed''"

fun priority_value :: "PriorityEnum \<Rightarrow> string" where
  "priority_value LOW = ''low''"
| "priority_value MEDIUM = ''medium''"
| "priority_value HIGH = ''high''"
| "priority_value CRITICAL = ''critical''"

type_synonym timestamp = int

text \<open>
  \<open>IssueCreate\<close> holds the six fields a caller supplies; the table row \<open>Issue\<close> is built from
  them and extends them by the columns the store fills in. The primary key is called \<open>id\<close>
  in the source.
\<close>

record IssueCreate =
  title :: string
  description :: "string option"
  status :: StatusEnum
  priority :: PriorityEnum
  assignee :: "string option"
  reporter :: "string option"

record Issue = IssueCreate +
  issue_id :: int
  created_at :: timestamp
  updated_at :: timestamp
  version :: int

text \<open>
  A field of \<open>IssueUpdate\<close> is either left out of the request or given, and a given field may
  be null: \<open>model_dump(exclude_unset=True)\<close> keeps exactly the given ones.
\<close>

datatype 'a field = Unset | Given 'a

record IssueUpdate =
  upd_title :: "string option field"
  upd_description :: "string option field"
  upd_status :: "StatusEnum option field"
  upd_priority :: "PriorityEnum option field"
  upd_assignee :: "string option field"
  upd_reporter :: "string option field"
  upd_version :: "int option"

record IssueBulkUpdate =
  issue_ids :: "int list"
  bulk_status :: "StatusEnum option"
  bulk_priority :: "PriorityEnum option"
  bulk_assignee :: "string option"

text \<open>
  The store: the rows of table \<open>issues\<close> in insertion order and the next value of the
  primary key. The key column is declared \<open>autoincrement=True\<close>; the model hands the keys out
  by counting upwards and never hands one out twice.
\<close>

record db =
  rows :: "Issue list"
  next_id :: int

text \<open>
  The failures of the endpoints: the 404 of a single id, the 404 of a bulk request that
  matched nothing, the 409 of the optimistic lock with the expected and the current
  version, the constraint violation of a commit that writes null into a column declared
  \<open>nullable=False\<close>, and the 422 of a query parameter outside its declared range.
\<close>

datatype api_error =
    NotFound int
  | NoIssuesFound
  | VersionConflict int int
  | IntegrityError string
  | RequestValidationError string

section \<open>Single issue operations (main.py)\<close>

definition new_issue :: "timestamp \<Rightarrow> int \<Rightarrow> IssueCreate \<Rightarrow> Issue" where
  "new_issue now k c =
     \<lparr>title = title c, description = description c, status = status c,
      priority = priority c, assignee = assignee c, reporter = reporter c,
      issue_id = k, created_at = now, updated_at = now, version = 1\<rparr>"

definition db_add :: "timestamp \<Rightarrow> IssueCreate \<Rightarrow> db \<Rightarrow> Issue \<times> db" where
  "db_add now c d =
     (let i = new_issue now (next_id d) c
      in (i, \<lparr>rows = rows d @ [i], next_id = next_id d + 1\<rparr>))"

definition create_issue :: "timestamp \<Rightarrow> IssueCreate \<Rightarrow> db \<Rightarrow> Issue \<times> db" where
  "create_issue now issue d = db_add now issue d"

definition get_issue :: "int \<Rightarrow> db \<Rightarrow> api_error + Issue" where
  "get_issue k d =
     (case find (\<lambda>i. issue_id i = k) (rows d) of
        None \<Rightarrow> Inl (NotFound k)
      | Some i \<Rightarrow> Inr i)"

text \<open>
  The loop \<open>for field, value in update_data.items(): setattr(db_issue, field, value)\<close>. The
  columns \<open>title\<close>, \<open>status\<close> and \<open>priority\<close> are not nullable: a null given for one of them is
  refused when the row is written.
\<close>

definition null_violation :: "IssueUpdate \<Rightarrow> string option" where
  "null_violation u =
     (if upd_title u = Given None then Some ''title''
      else if upd_status u = Given None then Some ''status''
      else if upd_priority u = Given None then Some ''priority''
      else None)"

definition set_fields :: "IssueUpdate \<Rightarrow> Issue \<Rightarrow> Issue" where
  "set_fields u i =
     i\<lparr>title := (case upd_title u of Given (Some t) \<Rightarrow> t | _ \<Rightarrow> title i),
       description := (case upd_description u of Given x \<Rightarrow> x | Unset \<Rightarrow> description i),
       status := (case upd_status u of Given (Some s) \<Rightarrow> s | _ \<Rightarrow> status i),
       priority := (case upd_priority u of Given (Some p) \<Rightarrow> p | _ \<Rightarrow> priority i),
       assignee := (case upd_assignee u of Given x \<Rightarrow> x | Unset \<Rightarrow> assignee i),
       reporter := (case upd_reporter u of Given x \<Rightarrow> x | Unset \<Rightarrow> reporter i)\<rparr>"

text \<open>
  \<open>update_issue\<close>: look the row up, compare the version when the request carries one, set
  the given fields, increment the version, commit. The commit writes the row whose primary
  key is \<open>k\<close> and refreshes \<open>updated_at\<close> (\<open>onupdate=func.now()\<close>).
\<close>

definition update_issue :: "timestamp \<Rightarrow> int \<Rightarrow> IssueUpdate \<Rightarrow> db \<Rightarrow> (api_error + Issue) \<times> db" where
  "update_issue now k u d =
     (case find (\<lambda>i. issue_id i = k) (rows d) of
        None \<Rightarrow> (Inl (NotFound k), d)
      | Some db_issue \<Rightarrow>
          if upd_version u \<noteq> None \<and> version db_issue \<noteq> the (upd_version u)
          then (Inl (VersionConflict (the (upd_version u)) (version db_issue)), d)
          else
            (case null_violation u of
               Some column \<Rightarrow> (Inl (IntegrityError column), d)
             | None \<Rightarrow>
                 (let i = (set_fields u db_issue)
                            \<lparr>version := version db_issue + 1, updated_at := now\<rparr>
                  in (Inr i, d\<lparr>rows := map (\<lambda>r. if issue_id r = k then i else r) (rows d)\<rparr>))))"

definition delete_issue :: "int \<Rightarrow> db \<Rightarrow> (api_error + unit) \<times> db" where
  "delete_issue k d =
     (case find (\<lambda>i. issue_id i = k) (rows d) of
        None \<Rightarrow> (Inl (NotFound k), d)
      | Some db_issue \<Rightarrow> (Inr (), d\<lparr>rows := filter (\<lambda>r. issue_id r \<noteq> k) (rows d)\<rparr>))"

section \<open>Bulk operations (main.py)\<close>

record BulkUpdateResult =
  updated_count :: nat
  updated_ids :: "int list"

record BulkDeleteResult =
  deleted_count :: nat
  deleted_ids :: "int list"

text \<open>The body of the loop of \<open>bulk_update_issues\<close>, and the write of the row at the commit.\<close>

definition bulk_apply :: "timestamp \<Rightarrow> IssueBulkUpdate \<Rightarrow> Issue \<Rightarrow> Issue" where
  "bulk_apply now b i =
     i\<lparr>status := (case bulk_status b of Some s \<Rightarrow> s | None \<Rightarrow> status i),
       priority := (case bulk_priority b of Some p \<Rightarrow> p | None \<Rightarrow> priority i),
       assignee := (case bulk_assignee b of Some a \<Rightarrow> Some a | None \<Rightarrow> assignee i),
       version := version i + 1,
       updated_at := now\<rparr>"

text \<open>
  \<open>issues\<close> is the result of \<open>filter(Issue.id.in_(issue_ids))\<close>. The loaded objects are the
  rows themselves, so the loop rewrites every row whose key is in the request;
  \<open>updated_count\<close> is incremented once per loaded row.
\<close>

definition bulk_update_issues ::
  "timestamp \<Rightarrow> IssueBulkUpdate \<Rightarrow> db \<Rightarrow> (api_error + BulkUpdateResult) \<times> db" where
  "bulk_update_issues now b d =
     (let issues = filter (\<lambda>i. issue_id i \<in> set (issue_ids b)) (rows d)
      in if issues = [] then (Inl NoIssuesFound, d)
         else (Inr \<lparr>updated_count = length issues, updated_ids = map issue_id issues\<rparr>,
               d\<lparr>rows := map (\<lambda>r. if issue_id r \<in> set (issue_ids b) then bulk_apply now b r else r)
                             (rows d)\<rparr>))"

definition bulk_delete_issues :: "int list \<Rightarrow> db \<Rightarrow> (api_error + BulkDeleteResult) \<times> db" where
  "bulk_delete_issues ids d =
     (let issues = filter (\<lambda>i. issue_id i \<in> set ids) (rows d)
      in if issues = [] then (Inl NoIssuesFound, d)
         else (Inr \<lparr>deleted_count = length issues, deleted_ids = map issue_id issues\<rparr>,
               d\<lparr>rows := filter (\<lambda>r. issue_id r \<notin> set ids) (rows d)\<rparr>))"

section \<open>Text helpers\<close>

text \<open>
  \<open>str.strip()\<close> removes the white space at both ends, \<open>str.lower()\<close> maps the capital
  letters to small ones.
\<close>

definition is_space :: "char \<Rightarrow> bool" where
  "is_space c \<longleftrightarrow>
     c \<in> set [CHR 0x09, CHR 0x0A, CHR 0x0B, CHR 0x0C, CHR 0x0D,
              CHR 0x1C, CHR 0x1D, CHR 0x1E, CHR 0x1F, CHR 0x20]"

definition strip :: "string \<Rightarrow> string" where
  "strip s = rev (dropWhile is_space (rev (dropWhile is_space s)))"

definition lower_char :: "char \<Rightarrow> char" where
  "lower_char c =
     (case map_of (zip ''ABCDEFGHIJKLMNOPQRSTUVWXYZ'' ''abcdefghijklmnopqrstuvwxyz'') c of
        Some l \<Rightarrow> l
      | None \<Rightarrow> c)"

definition lower :: "string \<Rightarrow> string" where
  "lower s = map lower_char s"

text \<open>
  The SQL operator \<open>LIKE\<close>, pattern first: \<open>%\<close> stands for any run of characters, \<open>_\<close> for
  any single character, every other character for itself (the source sets no escape
  character, and none is modelled). \<open>ilike\<close> compares without regard to case; a null column
  matches nothing.
\<close>

fun like :: "string \<Rightarrow> string \<Rightarrow> bool" where
  "like [] t = (t = [])"
| "like (p # ps) [] = (p = CHR ''%'' \<and> like ps [])"
| "like (p # ps) (c # cs) =
     (if p = CHR ''%'' then like ps (c # cs) \<or> like (p # ps) cs
      else (p = CHR ''_'' \<or> p = c) \<and> like ps cs)"

definition ilike :: "string option \<Rightarrow> string \<Rightarrow> bool" where
  "ilike column pattern =
     (case column of None \<Rightarrow> False | Some x \<Rightarrow> like (lower pattern) (lower x))"

section \<open>Listing with filters (main.py)\<close>

text \<open>
  \<open>if assignee:\<close> and \<open>if search:\<close> test the truth value of an optional string: null and the
  empty string are both false.
\<close>

definition truthy :: "string option \<Rightarrow> bool" where
  "truthy x = (case x of None \<Rightarrow> False | Some s \<Rightarrow> s \<noteq> [])"

definition query_filter ::
  "StatusEnum option \<Rightarrow> PriorityEnum option \<Rightarrow> string option \<Rightarrow> string option
     \<Rightarrow> Issue list \<Rightarrow> Issue list" where
  "query_filter status_filter prio asg search query =
     (let q1 = (case status_filter of
                  Some s \<Rightarrow> filter (\<lambda>i. status i = s) query | None \<Rightarrow> query);
          q2 = (case prio of
                  Some p \<Rightarrow> filter (\<lambda>i. priority i = p) q1 | None \<Rightarrow> q1);
          q3 = (if truthy asg then filter (\<lambda>i. assignee i = Some (the asg)) q2 else q2);
          q4 = (if truthy search
                then (let search_pattern = ''%'' @ the search @ ''%''
                      in filter (\<lambda>i. ilike (Some (title i)) search_pattern
                                      \<or> ilike (description i) search_pattern) q3)
                else q3)
      in q4)"

text \<open>
  Modelled from the spec: the storage engine that evaluates \<open>ORDER BY created_at DESC\<close> is
  not part of the sources. The source gives the sort key and the direction; the order of
  rows with equal \<open>created_at\<close> is the engine's. The spec says that ties are broken by
  insertion order, stably, so the engine is modelled by a stable sort of the rows in
  insertion order.
\<close>

definition order_by_created_at_desc :: "Issue list \<Rightarrow> Issue list" where
  "order_by_created_at_desc query = sort_key (\<lambda>i. - created_at i) query"

definition offset :: "int \<Rightarrow> 'a list \<Rightarrow> 'a list" where
  "offset skip query = drop (nat skip) query"

definition limit_to :: "int \<Rightarrow> 'a list \<Rightarrow> 'a list" where
  "limit_to limit query = take (nat limit) query"

text \<open>
  \<open>skip\<close> is declared \<open>Query(0, ge=0)\<close> and \<open>limit\<close> \<open>Query(100, ge=1, le=1000)\<close>: an absent
  parameter takes the default, a value outside the range is refused before the body runs.
\<close>

definition list_issues ::
  "StatusEnum option \<Rightarrow> PriorityEnum option \<Rightarrow> string option \<Rightarrow> string option
     \<Rightarrow> int option \<Rightarrow> int option \<Rightarrow> db \<Rightarrow> api_error + Issue list" where
  "list_issues status_filter prio asg search skip_param limit_param d =
     (let skip = (case skip_param of None \<Rightarrow> 0 | Some n \<Rightarrow> n);
          limit = (case limit_param of None \<Rightarrow> 100 | Some n \<Rightarrow> n)
      in if skip < 0 then Inl (RequestValidationError ''skip'')
         else if limit < 1 \<or> 1000 < limit then Inl (RequestValidationError ''limit'')
         else Inr (limit_to limit (offset skip (order_by_created_at_desc
                     (query_filter status_filter prio asg search (rows d))))))"

section \<open>Statistics (main.py)\<close>

record IssueStats =
  total_issues :: nat
  by_status :: "(string \<times> nat) list"
  by_priority :: "(string \<times> nat) list"
  by_assignee :: "(string \<times> nat) list"

record IssueSummary =
  summary_total_issues :: nat
  open_issues :: nat
  in_progress_issues :: nat
  resolved_issues :: nat
  closed_issues :: nat
  critical_priority :: nat
  high_priority :: nat
  medium_priority :: nat
  low_priority :: nat

definition count_where :: "(Issue \<Rightarrow> bool) \<Rightarrow> db \<Rightarrow> nat" where
  "count_where P d = length (filter P (rows d))"

text \<open>
  A Python dictionary is an association list with unique keys in insertion order;
  \<open>d[k] = v\<close> is \<open>AList.update\<close>. The groups of \<open>group_by(Issue.assignee)\<close> are the distinct
  non-null assignees.
\<close>

definition get_issue_stats :: "db \<Rightarrow> IssueStats" where
  "get_issue_stats d =
     (let by_status = foldl (\<lambda>m status_enum.
                         AList.update (status_value status_enum)
                           (count_where (\<lambda>i. status i = status_enum) d) m)
                       [] StatusEnum_members;
          by_priority = foldl (\<lambda>m priority_enum.
                         AList.update (priority_value priority_enum)
                           (count_where (\<lambda>i. priority i = priority_enum) d) m)
                       [] PriorityEnum_members;
          assignee_counts = map (\<lambda>a. (a, count_where (\<lambda>i. assignee i = Some a) d))
                              (remdups (List.map_filter assignee (rows d)));
          by_assignee = AList.update ''unassigned'' (count_where (\<lambda>i. assignee i = None) d)
                          (foldl (\<lambda>m (a, n). AList.update a n m) [] assignee_counts)
      in \<lparr>total_issues = length (rows d), by_status = by_status,
          by_priority = by_priority, by_assignee = by_assignee\<rparr>)"

definition get_issue_summary :: "db \<Rightarrow> IssueSummary" where
  "get_issue_summary d =
     \<lparr>summary_total_issues = length (rows d),
      open_issues = count_where (\<lambda>i. status i = OPEN) d,
      in_progress_issues = count_where (\<lambda>i. status i = IN_PROGRESS) d,
      resolved_issues = count_where (\<lambda>i. status i = RESOLVED) d,
      closed_issues = count_where (\<lambda>i. status i = CLOSED) d,
      critical_priority = count_where (\<lambda>i. priority i = CRITICAL) d,
      high_priority = count_where (\<lambda>i. priority i = HIGH) d,
      medium_priority = count_where (\<lambda>i. priority i = MEDIUM) d,
      low_priority = count_where (\<lambda>i. priority i = LOW) d\<rparr>"

section \<open>CSV import (csv_import.py)\<close>

text \<open>
  A row of \<open>csv.DictReader\<close> maps column names to cells. A column that the header does not
  name is absent from the row; a row with fewer cells than the header has \<open>None\<close> in the
  missing ones (cells beyond the header are kept under a key that the import never reads).
  \<open>dict_get\<close> is \<open>row.get(key, default)\<close>.
\<close>

type_synonym csv_row = "string \<rightharpoonup> string option"

definition dict_get :: "csv_row \<Rightarrow> string \<Rightarrow> string \<Rightarrow> string option" where
  "dict_get r k dflt = (case r k of None \<Rightarrow> Some dflt | Some cell \<Rightarrow> cell)"

text \<open>
  The exceptions that the import catches: \<open>.strip()\<close> on \<open>None\<close>, the validation of
  \<open>IssueCreate\<close> (with the names of the fields that fail), and a failure of the storage
  layer during the commit.
\<close>

datatype exn =
    AttributeError string
  | ValidationError "string list"
  | SQLAlchemyError string

text \<open>
  What the import takes from its surroundings: \<open>str(e)\<close> for a caught exception, the
  exception (if any) that the commit of the row with a given number raises, and the time
  of that commit.
\<close>

record env =
  exn_text :: "exn \<Rightarrow> string"
  commit_error :: "nat \<Rightarrow> exn option"
  clock :: "nat \<Rightarrow> timestamp"

record RowError =
  row :: nat
  error :: string

record CSVImportResult =
  total_rows :: nat
  successful :: nat
  failed :: nat
  errors :: "RowError list"

definition stripped :: "csv_row \<Rightarrow> string \<Rightarrow> string \<Rightarrow> exn + string" where
  "stripped r k dflt =
     (case dict_get r k dflt of
        None \<Rightarrow> Inl (AttributeError ''strip'')
      | Some s \<Rightarrow> Inr (strip s))"

definition or_none :: "string \<Rightarrow> string option" where
  "or_none s = (if s = [] then None else Some s)"

definition raising :: "exn + 'a \<Rightarrow> ('a \<Rightarrow> exn + 'b) \<Rightarrow> exn + 'b" where
  "raising x f = (case x of Inl e \<Rightarrow> Inl e | Inr v \<Rightarrow> f v)"

text \<open>The two \<open>if\<close>/\<open>elif\<close> chains of \<open>parse_csv_row\<close>.\<close>

definition parse_status :: "string \<Rightarrow> StatusEnum" where
  "parse_status status_str =
     (if status_str = ''in progress'' \<or> status_str = ''in_progress'' then IN_PROGRESS
      else if status_str = ''open'' then OPEN
      else if status_str = ''resolved'' then RESOLVED
      else if status_str = ''closed'' then CLOSED
      else OPEN)"

definition parse_priority :: "string \<Rightarrow> PriorityEnum" where
  "parse_priority priority_str =
     (if priority_str = ''low'' then LOW
      else if priority_str = ''medium'' then MEDIUM
      else if priority_str = ''high'' then HIGH
      else if priority_str = ''critical'' then CRITICAL
      else MEDIUM)"

text \<open>
  The constraints of schema \<open>IssueCreate\<close>: \<open>title\<close> has between 1 and 200 characters,
  \<open>assignee\<close> and \<open>reporter\<close> at most 100. The constructor raises when a field fails.
\<close>

definition validation_errors :: "IssueCreate \<Rightarrow> string list" where
  "validation_errors c =
     (if length (title c) < 1 \<or> 200 < length (title c) then [''title''] else []) @
     (case assignee c of
        Some a \<Rightarrow> if 100 < length a then [''assignee''] else []
      | None \<Rightarrow> []) @
     (case reporter c of
        Some a \<Rightarrow> if 100 < length a then [''reporter''] else []
      | None \<Rightarrow> [])"

definition IssueCreate_init :: "IssueCreate \<Rightarrow> exn + IssueCreate" where
  "IssueCreate_init c =
     (if validation_errors c = [] then Inr c else Inl (ValidationError (validation_errors c)))"

text \<open>The body of the \<open>try\<close> of \<open>parse_csv_row\<close> up to the construction of the issue.\<close>

definition parse_fields :: "csv_row \<Rightarrow> exn + IssueCreate" where
  "parse_fields r =
     raising (stripped r ''status'' ''open'') (\<lambda>s.
     raising (stripped r ''priority'' ''medium'') (\<lambda>p.
     raising (stripped r ''title'' []) (\<lambda>t.
     raising (stripped r ''description'' []) (\<lambda>d.
     raising (stripped r ''assignee'' []) (\<lambda>a.
     raising (stripped r ''reporter'' []) (\<lambda>rep.
       IssueCreate_init
         \<lparr>title = t, description = or_none d,
          status = parse_status (lower s), priority = parse_priority (lower p),
          assignee = or_none a, reporter = or_none rep\<rparr>))))))"

definition parse_csv_row ::
  "(exn \<Rightarrow> string) \<Rightarrow> csv_row \<Rightarrow> nat \<Rightarrow> IssueCreate option \<times> RowError option" where
  "parse_csv_row str r row_number =
     (case parse_fields r of
        Inl e \<Rightarrow> (None, Some \<lparr>row = row_number, error = ''Parsing error: '' @ str e\<rparr>)
      | Inr issue \<Rightarrow>
          if title issue = []
          then (None, Some \<lparr>row = row_number,
                            error = ''Title is required and cannot be empty''\<rparr>)
          else (Some issue, None))"

text \<open>
  The loop of \<open>import_issues_from_csv\<close> over the rows of the reader, numbered from 2. The
  state of the loop is the store and the four counters. A row without error and without
  issue would raise inside the \<open>try\<close> at \<open>issue_data.model_dump()\<close>.
\<close>

fun import_loop :: "env \<Rightarrow> nat \<Rightarrow> csv_row list \<Rightarrow> db \<times> CSVImportResult \<Rightarrow> db \<times> CSVImportResult" where
  "import_loop e row_number [] acc = acc"
| "import_loop e row_number (r # rs) (d, res) =
     (let res1 = res\<lparr>total_rows := total_rows res + 1\<rparr>
      in case parse_csv_row (exn_text e) r row_number of
           (issue_data, Some err) \<Rightarrow>
             import_loop e (row_number + 1) rs
               (d, res1\<lparr>failed := failed res1 + 1, errors := errors res1 @ [err]\<rparr>)
         | (issue_data, None) \<Rightarrow>
             (case (case issue_data of
                      None \<Rightarrow> Some (AttributeError ''model_dump'')
                    | Some c \<Rightarrow> commit_error e row_number) of
                None \<Rightarrow>
                  import_loop e (row_number + 1) rs
                    (snd (db_add (clock e row_number) (the issue_data) d),
                     res1\<lparr>successful := successful res1 + 1\<rparr>)
              | Some ex \<Rightarrow>
                  import_loop e (row_number + 1) rs
                    (d, res1\<lparr>failed := failed res1 + 1,
                             errors := errors res1 @
                               [\<lparr>row = row_number,
                                 error = ''Database error: '' @ exn_text e ex\<rparr>]\<rparr>)))"

definition import_issues_from_csv :: "env \<Rightarrow> csv_row list \<Rightarrow> db \<Rightarrow> CSVImportResult \<times> db" where
  "import_issues_from_csv e reader d =
     (let (d', res) =
            import_loop e 2 reader
              (d, \<lparr>total_rows = 0, successful = 0, failed = 0, errors = []\<rparr>)
      in (res, d'))"

section \<open>Auxiliary notions for the properties\<close>

text \<open>
  The verdict of one pass of the loop of \<open>import_issues_from_csv\<close> on the row with number
  \<open>n\<close>: the error that the pass appends, or the issue that it commits.
\<close>

definition row_outcome :: "env \<Rightarrow> nat \<Rightarrow> csv_row \<Rightarrow> RowError + IssueCreate" where
  "row_outcome e n r =
     (case parse_csv_row (exn_text e) r n of
        (issue_data, Some err) \<Rightarrow> Inl err
      | (None, None) \<Rightarrow>
          Inl \<lparr>row = n, error = ''Database error: '' @ exn_text e (AttributeError ''model_dump'')\<rparr>
      | (Some c, None) \<Rightarrow>
          (case commit_error e n of
             None \<Rightarrow> Inr c
           | Some ex \<Rightarrow> Inl \<lparr>row = n, error = ''Database error: '' @ exn_text e ex\<rparr>))"

fun outcomes_from :: "env \<Rightarrow> nat \<Rightarrow> csv_row list \<Rightarrow> (RowError + IssueCreate) list" where
  "outcomes_from e n [] = []"
| "outcomes_from e n (r # rs) = row_outcome e n r # outcomes_from e (Suc n) rs"

fun stored_from :: "env \<Rightarrow> nat \<Rightarrow> csv_row list \<Rightarrow> db \<Rightarrow> db" where
  "stored_from e n [] d = d"
| "stored_from e n (r # rs) d =
     stored_from e (Suc n) rs
       (case row_outcome e n r of Inl err \<Rightarrow> d | Inr c \<Rightarrow> snd (db_add (clock e n) c d))"

text \<open>The positions (from 0) of the rows of a file that fail, and of those that succeed.\<close>

definition failed_rows :: "env \<Rightarrow> csv_row list \<Rightarrow> nat list" where
  "failed_rows e reader =
     filter (\<lambda>j. isl (row_outcome e (j + 2) (reader ! j))) [0..<length reader]"

definition successful_rows :: "env \<Rightarrow> csv_row list \<Rightarrow> nat list" where
  "successful_rows e reader =
     filter (\<lambda>j. \<not> isl (row_outcome e (j + 2) (reader ! j))) [0..<length reader]"

text \<open>The requests that change the store, and the store after a request.\<close>

datatype operation =
    Create timestamp IssueCreate
  | Update timestamp int IssueUpdate
  | Delete int
  | BulkUpdate timestamp IssueBulkUpdate
  | BulkDelete "int list"
  | Import env "csv_row list"

fun run_op :: "operation \<Rightarrow> db \<Rightarrow> db" where
  "run_op (Create now c) d = snd (create_issue now c d)"
| "run_op (Update now k u) d = snd (update_issue now k u d)"
| "run_op (Delete k) d = snd (delete_issue k d)"
| "run_op (BulkUpdate now b) d = snd (bulk_update_issues now b d)"
| "run_op (BulkDelete ids) d = snd (bulk_delete_issues ids d)"
| "run_op (Import e reader) d = snd (import_issues_from_csv e reader d)"

definition empty_db :: db where
  "empty_db = \<lparr>rows = [], next_id = 1\<rparr>"

text \<open>
  The invariant of the store: the primary keys ascend in insertion order (so they are
  unique) and lie below the next key, and no version is below 1.
\<close>

definition store_inv :: "db \<Rightarrow> bool" where
  "store_inv d \<longleftrightarrow>
     sorted_wrt (<) (map issue_id (rows d))
     \<and> (\<forall>i\<in>set (rows d). issue_id i < next_id d \<and> 1 \<le> version i)"

text \<open>No issue that is in both stores has a smaller version in the second.\<close>

definition versions_never_decrease :: "db \<Rightarrow> db \<Rightarrow> bool" where
  "versions_never_decrease d d' \<longleftrightarrow>
     (\<forall>r\<in>set (rows d). \<forall>r'\<in>set (rows d'). issue_id r' = issue_id r \<longrightarrow> version r \<le> version r')"

text \<open>
  The second store continues the first: keys are handed out upwards, and every issue of the
  second store with an old key is an issue of the first with at least its version.
\<close>

definition continues :: "db \<Rightarrow> db \<Rightarrow> bool" where
  "continues d d' \<longleftrightarrow>
     next_id d \<le> next_id d'
     \<and> (\<forall>r'\<in>set (rows d').
          issue_id r' < next_id d \<longrightarrow>
            (\<exists>r\<in>set (rows d). issue_id r = issue_id r' \<and> version r \<le> version r'))"


text \<open>
  A search term without the two wildcards of \<open>LIKE\<close>, and the reading of the search that the
  spec gives: the term occurs in the column as a run of characters, letter case apart.
\<close>

definition no_wildcards :: "string \<Rightarrow> bool" where
  "no_wildcards s \<longleftrightarrow> CHR ''%'' \<notin> set s \<and> CHR ''_'' \<notin> set s"

definition contains_ci :: "string \<Rightarrow> string option \<Rightarrow> bool" where
  "contains_ci needle column =
     (case column of None \<Rightarrow> False | Some x \<Rightarrow> sublist (lower needle) (lower x))"

text \<open>
  An issue passes a query when it passes each filter that the query supplies; an assignee
  filter with the empty string counts as not supplied.
\<close>

definition passes ::
  "StatusEnum option \<Rightarrow> PriorityEnum option \<Rightarrow> string option \<Rightarrow> string option
     \<Rightarrow> Issue \<Rightarrow> bool" where
  "passes status_filter prio asg search i \<longleftrightarrow>
     (status_filter = None \<or> status_filter = Some (status i))
     \<and> (prio = None \<or> prio = Some (priority i))
     \<and> (asg = None \<or> asg = Some [] \<or> asg = assignee i)
     \<and> (search = None \<or> contains_ci (the search) (Some (title i))
           \<or> contains_ci (the search) (description i))"

text \<open>The order of a listing: later creation first, and the smaller key first in a tie.\<close>

definition listed_before :: "Issue \<Rightarrow> Issue \<Rightarrow> bool" where
  "listed_before a b \<longleftrightarrow>
     created_at b < created_at a \<or> (created_at a = created_at b \<and> issue_id a < issue_id b)"

section \<open>Sample data\<close>

text \<open>A store with three issues, two of them created at the same time.\<close>

definition issue_login :: Issue where
  "issue_login =
     \<lparr>title = ''Login fails'', description = None, status = OPEN, priority = HIGH,
      assignee = Some ''alice'', reporter = None,
      issue_id = 1, created_at = 100, updated_at = 130, version = 3\<rparr>"

definition issue_export :: Issue where
  "issue_export =
     \<lparr>title = ''Export is slow'', description = Some ''A Bug in the CSV writer'',
      status = IN_PROGRESS, priority = LOW, assignee = None, reporter = Some ''carol'',
      issue_id = 2, created_at = 100, updated_at = 100, version = 1\<rparr>"

definition issue_docs :: Issue where
  "issue_docs =
     \<lparr>title = ''Write the docs'', description = Some ''100% of the API'',
      status = OPEN, priority = MEDIUM, assignee = Some ''bob'', reporter = None,
      issue_id = 4, created_at = 120, updated_at = 125, version = 2\<rparr>"

definition sample_db :: db where
  "sample_db = \<lparr>rows = [issue_login, issue_export, issue_docs], next_id = 5\<rparr>"

definition stale_update :: IssueUpdate where
  "stale_update =
     \<lparr>upd_title = Given (Some ''Login fails again''), upd_description = Unset,
      upd_status = Given (Some CLOSED), upd_priority = Unset, upd_assignee = Given None,
      upd_reporter = Unset, upd_version = Some 2\<rparr>"

definition fresh_update :: IssueUpdate where
  "fresh_update = stale_update\<lparr>upd_version := Some 3\<rparr>"

definition bulk_close :: IssueBulkUpdate where
  "bulk_close =
     \<lparr>issue_ids = [4, 9, 1, 4], bulk_status = Some CLOSED, bulk_priority = None,
      bulk_assignee = None\<rparr>"

definition bulk_touch :: IssueBulkUpdate where
  "bulk_touch =
     \<lparr>issue_ids = [2, 4], bulk_status = None, bulk_priority = None, bulk_assignee = None\<rparr>"

text \<open>A history of requests on the sample store.\<close>

definition sample_history :: "operation list" where
  "sample_history =
     [Update 200 1 fresh_update, BulkUpdate 210 bulk_close, Delete 4,
      Create 220 \<lparr>title = ''New'', description = None, status = OPEN, priority = LOW,
                  assignee = None, reporter = None\<rparr>,
      BulkDelete [2, 7]]"

text \<open>
  A file with the header \<open>title,status\<close> and five data rows; the title of the third data
  row is blank. The surroundings: no commit fails, the clock shows the row number.
\<close>

definition row_crash :: csv_row where
  "row_crash = [''title'' \<mapsto> Some ''Crash on save'', ''status'' \<mapsto> Some ''open'']"

definition row_search :: csv_row where
  "row_search = [''title'' \<mapsto> Some ''Slow search'', ''status'' \<mapsto> Some ''In Progress'']"

definition row_blank :: csv_row where
  "row_blank = [''title'' \<mapsto> Some ''   '', ''status'' \<mapsto> Some ''open'']"

definition row_typo :: csv_row where
  "row_typo = [''title'' \<mapsto> Some ''Typo'', ''status'' \<mapsto> Some ''closed'']"

definition row_dark :: csv_row where
  "row_dark = [''title'' \<mapsto> Some ''Dark mode'', ''status'' \<mapsto> Some ''resolved'']"

definition five_rows :: "csv_row list" where
  "five_rows = [row_crash, row_search, row_blank, row_typo, row_dark]"

definition quiet_env :: "(exn \<Rightarrow> string) \<Rightarrow> env" where
  "quiet_env str = \<lparr>exn_text = str, commit_error = (\<lambda>n. None), clock = (\<lambda>n. int n)\<rparr>"

text \<open>A row with a status in mixed case, an unknown priority and an empty assignee.\<close>

definition row_mixed :: csv_row where
  "row_mixed =
     [''title'' \<mapsto> Some ''  Fix login '', ''status'' \<mapsto> Some '' In Progress '',
      ''priority'' \<mapsto> Some ''URGENT'', ''assignee'' \<mapsto> Some '''']"

section \<open>Properties of the store operations\<close>

lemma find_issue_in:
  "find (\<lambda>i. issue_id i = k) xs = Some x \<Longrightarrow> x \<in> set xs \<and> issue_id x = k"
  by (induction xs) (auto split: if_splits)

lemma find_after_rewrite:
  "x \<in> set xs \<Longrightarrow> issue_id x = k \<Longrightarrow> issue_id i = k
     \<Longrightarrow> find (\<lambda>r. issue_id r = k) (map (\<lambda>r. if issue_id r = k then i else r) xs) = Some i"
  by (induction xs) auto

lemma distinct_key_unique:
  "distinct (map issue_id xs) \<Longrightarrow> x \<in> set xs \<Longrightarrow> y \<in> set xs
     \<Longrightarrow> issue_id x = issue_id y \<Longrightarrow> x = y"
  by (meson distinct_map inj_onD)

text \<open>
  C1. When the row with key \<open>k\<close> is stored and the request carries an expected version that
  differs from the stored one, \<open>update_issue\<close> fails with the version conflict that holds
  the expected and the stored version, and the store, with every field of every row, is the
  store it was called with.
\<close>

theorem update_issue_version_conflict:
  assumes "find (\<lambda>i. issue_id i = k) (rows d) = Some db_issue"
    and "upd_version u = Some expected"
    and "expected \<noteq> version db_issue"
  shows "update_issue now k u d = (Inl (VersionConflict expected (version db_issue)), d)"
  using assms by (simp add: update_issue_def)

theorem update_issue_version_conflict_witness:
  "find (\<lambda>i. issue_id i = 1) (rows sample_db) = Some issue_login
   \<and> upd_version stale_update = Some 2
   \<and> 2 \<noteq> version issue_login
   \<and> update_issue 200 1 stale_update sample_db = (Inl (VersionConflict 2 3), sample_db)"
proof -
  have found: "find (\<lambda>i. issue_id i = 1) (rows sample_db) = Some issue_login"
    by (simp add: sample_db_def issue_login_def)
  have given: "upd_version stale_update = Some 2"
    by (simp add: stale_update_def)
  have differs: "2 \<noteq> version issue_login"
    by (simp add: issue_login_def)
  have "version issue_login = 3"
    by (simp add: issue_login_def)
  with update_issue_version_conflict [OF found given differs, of 200] found given differs
  show ?thesis by simp
qed


lemma find_issue_None: "find (\<lambda>i. issue_id i = k) xs = None \<longleftrightarrow> k \<notin> issue_id ` set xs"
  by (induction xs) auto

lemma update_issue_ok_rows:
  assumes "update_issue now k u d = (Inr i, d')"
  shows "\<exists>old. find (\<lambda>r. issue_id r = k) (rows d) = Some old
           \<and> i = (set_fields u old)\<lparr>version := version old + 1, updated_at := now\<rparr>
           \<and> d' = d\<lparr>rows := map (\<lambda>r. if issue_id r = k then i else r) (rows d)\<rparr>"
  using assms by (auto simp: update_issue_def Let_def split: option.splits if_splits)

lemma update_issue_fail_rows: "update_issue now k u d = (Inl err, d') \<Longrightarrow> d' = d"
  by (auto simp: update_issue_def Let_def split: option.splits if_splits)

lemma set_fields_keeps: "issue_id (set_fields u i) = issue_id i" "version (set_fields u i) = version i"
  "created_at (set_fields u i) = created_at i"
  by (simp_all add: set_fields_def)

lemma update_issue_versions:
  assumes "update_issue now k u d = (Inr i, d')" and "distinct (map issue_id (rows d))"
  shows "map version (rows d') = map (\<lambda>r. if issue_id r = k then version r + 1 else version r) (rows d)"
    and "map issue_id (rows d') = map issue_id (rows d)"
    and "next_id d' = next_id d"
proof -
  from update_issue_ok_rows [OF assms(1)] obtain old where
    f: "find (\<lambda>r. issue_id r = k) (rows d) = Some old"
    and i: "i = (set_fields u old)\<lparr>version := version old + 1, updated_at := now\<rparr>"
    and d': "d' = d\<lparr>rows := map (\<lambda>r. if issue_id r = k then i else r) (rows d)\<rparr>" by blast
  from f have old: "old \<in> set (rows d)" "issue_id old = k" using find_issue_in by blast+
  have same: "r = old" if "r \<in> set (rows d)" "issue_id r = k" for r
    using distinct_key_unique [OF assms(2) that(1) old(1)] that(2) old(2) by simp
  show "map version (rows d') = map (\<lambda>r. if issue_id r = k then version r + 1 else version r) (rows d)"
    using same by (auto simp: d' i set_fields_keeps)
  show "map issue_id (rows d') = map issue_id (rows d)"
    using old by (auto simp: d' i set_fields_keeps)
  show "next_id d' = next_id d" by (simp add: d')
qed

lemma bulk_apply_keeps: "issue_id (bulk_apply now b i) = issue_id i" "version (bulk_apply now b i) = version i + 1"
  "created_at (bulk_apply now b i) = created_at i" "updated_at (bulk_apply now b i) = now"
  "title (bulk_apply now b i) = title i" "description (bulk_apply now b i) = description i"
  "reporter (bulk_apply now b i) = reporter i"
  by (simp_all add: bulk_apply_def)

lemma bulk_update_ok:
  assumes "bulk_update_issues now b d = (Inr res, d')"
  shows "filter (\<lambda>i. issue_id i \<in> set (issue_ids b)) (rows d) \<noteq> []"
    and "res = \<lparr>updated_count = length (filter (\<lambda>i. issue_id i \<in> set (issue_ids b)) (rows d)),
               updated_ids = map issue_id (filter (\<lambda>i. issue_id i \<in> set (issue_ids b)) (rows d))\<rparr>"
    and "d' = d\<lparr>rows := map (\<lambda>r. if issue_id r \<in> set (issue_ids b) then bulk_apply now b r else r) (rows d)\<rparr>"
  using assms by (auto simp: bulk_update_issues_def Let_def split: if_splits)

lemma bulk_update_fail: "bulk_update_issues now b d = (Inl err, d') \<Longrightarrow> d' = d \<and> err = NoIssuesFound"
  by (auto simp: bulk_update_issues_def Let_def split: if_splits)

lemma bulk_update_versions:
  assumes "bulk_update_issues now b d = (Inr res, d')"
  shows "map version (rows d') =
           map (\<lambda>r. if issue_id r \<in> set (issue_ids b) then version r + 1 else version r) (rows d)"
    and "map issue_id (rows d') = map issue_id (rows d)"
    and "next_id d' = next_id d"
  using bulk_update_ok(3) [OF assms] by (auto simp: bulk_apply_keeps)




lemma store_inv_distinct: "store_inv d \<Longrightarrow> distinct (map issue_id (rows d))"
  by (simp add: store_inv_def strict_sorted_iff)

lemma continues_refl: "continues d d"
  by (auto simp: continues_def)

lemma continues_trans:
  assumes "continues d d1" and "continues d1 d2"
  shows "continues d d2"
  unfolding continues_def
proof (intro conjI ballI impI)
  show "next_id d \<le> next_id d2" using assms by (simp add: continues_def)
next
  fix r2 assume r2: "r2 \<in> set (rows d2)" and lt: "issue_id r2 < next_id d"
  from assms(1) have "next_id d \<le> next_id d1" by (simp add: continues_def)
  with lt have "issue_id r2 < next_id d1" by simp
  with assms(2) r2 obtain r1 where r1: "r1 \<in> set (rows d1)" "issue_id r1 = issue_id r2"
    "version r1 \<le> version r2" by (auto simp: continues_def)
  with assms(1) lt obtain r where "r \<in> set (rows d)" "issue_id r = issue_id r1" "version r \<le> version r1"
    by (auto simp: continues_def)
  with r1 show "\<exists>r\<in>set (rows d). issue_id r = issue_id r2 \<and> version r \<le> version r2"
    by (intro bexI [of _ r]) auto
qed

lemma continues_never_decrease:
  assumes "store_inv d" and "continues d d'"
  shows "versions_never_decrease d d'"
  unfolding versions_never_decrease_def
proof (intro ballI impI)
  fix r r' assume r: "r \<in> set (rows d)" and r': "r' \<in> set (rows d')" and eq: "issue_id r' = issue_id r"
  from assms(1) r have "issue_id r < next_id d" by (simp add: store_inv_def)
  with eq r' assms(2) obtain r0 where r0: "r0 \<in> set (rows d)" "issue_id r0 = issue_id r'" "version r0 \<le> version r'"
    by (auto simp: continues_def)
  from assms(1) have "distinct (map issue_id (rows d))" by (rule store_inv_distinct)
  from distinct_key_unique [OF this r0(1) r] r0(2) eq have "r0 = r" by simp
  with r0 show "version r \<le> version r'" by simp
qed

text \<open>Rewriting rows in place with the same keys and versions that do not shrink.\<close>

lemma rewrite_rows_step:
  assumes "store_inv d"
    and "map issue_id (rows d') = map issue_id (rows d)"
    and "list_all2 (\<lambda>r r'. version r \<le> version r') (rows d) (rows d')"
    and "next_id d' = next_id d"
  shows "store_inv d' \<and> continues d d'"
proof -
  have len: "length (rows d') = length (rows d)" using assms(3) by (simp add: list_all2_lengthD)
  have pt: "\<exists>r\<in>set (rows d). issue_id r = issue_id r' \<and> version r \<le> version r'"
    if "r' \<in> set (rows d')" for r'
  proof -
    from that obtain n where n: "n < length (rows d')" "rows d' ! n = r'"
      by (auto simp: in_set_conv_nth)
    have "issue_id (rows d ! n) = issue_id r'"
      using n len nth_map [of n "rows d" issue_id] nth_map [of n "rows d'" issue_id] assms(2) by simp
    moreover have "version (rows d ! n) \<le> version r'"
      using assms(3) n len by (auto simp: list_all2_conv_all_nth)
    moreover have "rows d ! n \<in> set (rows d)" using n len by simp
    ultimately show ?thesis by blast
  qed
  have "store_inv d'"
    unfolding store_inv_def
  proof (intro conjI ballI)
    show "sorted_wrt (<) (map issue_id (rows d'))" using assms(1,2) by (simp add: store_inv_def)
  next
    fix i assume "i \<in> set (rows d')"
    from pt [OF this] obtain r where "r \<in> set (rows d)" "issue_id r = issue_id i" "version r \<le> version i"
      by blast
    with assms(1,4) show "issue_id i < next_id d'" "1 \<le> version i"
      by (auto simp: store_inv_def)
  qed
  moreover have "continues d d'" using pt assms(4) by (auto simp: continues_def)
  ultimately show ?thesis ..
qed

lemma remove_rows_step:
  assumes "store_inv d" and "rows d' = filter P (rows d)" and "next_id d' = next_id d"
  shows "store_inv d' \<and> continues d d'"
  using assms by (auto simp: store_inv_def continues_def sorted_wrt_map sorted_wrt_filter)

lemma db_add_step:
  assumes "store_inv d"
  shows "store_inv (snd (db_add now c d)) \<and> continues d (snd (db_add now c d))"
  using assms
  by (fastforce simp: store_inv_def continues_def db_add_def new_issue_def Let_def
      sorted_wrt_append)

lemma stored_from_step:
  "store_inv d \<Longrightarrow> store_inv (stored_from e n rs d) \<and> continues d (stored_from e n rs d)"
proof (induction rs arbitrary: n d)
  case Nil
  then show ?case by (simp add: continues_refl)
next
  case (Cons r rs)
  let ?d1 = "case row_outcome e n r of Inl err \<Rightarrow> d | Inr c \<Rightarrow> snd (db_add (clock e n) c d)"
  have d1: "store_inv ?d1 \<and> continues d ?d1"
    using Cons.prems db_add_step by (auto simp: continues_refl split: sum.splits)
  with Cons.IH [of ?d1 "Suc n"] have "store_inv (stored_from e (Suc n) rs ?d1)"
    "continues ?d1 (stored_from e (Suc n) rs ?d1)" by blast+
  with d1 show ?case using continues_trans by auto
qed




lemma import_loop_outcomes:
  "import_loop e n rs (d, res) =
     (stored_from e n rs d,
      \<lparr>total_rows = total_rows res + length rs,
       successful = successful res + length (filter (\<lambda>x. \<not> isl x) (outcomes_from e n rs)),
       failed = failed res + length (filter isl (outcomes_from e n rs)),
       errors = errors res @ map projl (filter isl (outcomes_from e n rs))\<rparr>)"
proof (induction rs arbitrary: n d res)
  case Nil
  show ?case by simp
next
  case (Cons r rs)
  show ?case
    by (cases "parse_csv_row (exn_text e) r n")
       (auto simp: Cons.IH row_outcome_def Let_def split: option.splits)
qed

lemma import_issues_from_csv_outcomes:
  "import_issues_from_csv e reader d =
     (\<lparr>total_rows = length reader,
       successful = length (filter (\<lambda>x. \<not> isl x) (outcomes_from e 2 reader)),
       failed = length (filter isl (outcomes_from e 2 reader)),
       errors = map projl (filter isl (outcomes_from e 2 reader))\<rparr>,
      stored_from e 2 reader d)"
  by (simp add: import_issues_from_csv_def import_loop_outcomes)

lemma update_issue_step:
  assumes "store_inv d"
  shows "store_inv (snd (update_issue now k u d)) \<and> continues d (snd (update_issue now k u d))"
proof (cases "update_issue now k u d")
  case (Pair res d')
  show ?thesis
  proof (cases res)
    case (Inl err)
    with Pair have "d' = d" using update_issue_fail_rows by blast
    with Pair assms show ?thesis by (simp add: continues_refl)
  next
    case (Inr i)
    with Pair have ok: "update_issue now k u d = (Inr i, d')" by simp
    from assms have dist: "distinct (map issue_id (rows d))" by (rule store_inv_distinct)
    note v = update_issue_versions [OF ok dist]
    have "list_all2 (\<lambda>r r'. version r \<le> version r') (rows d) (rows d')"
    proof -
      have len: "length (rows d) = length (rows d')" using v(2) by (metis length_map)
      have "version (rows d ! n) \<le> version (rows d' ! n)" if "n < length (rows d)" for n
      proof -
        have "version (rows d' ! n) = map version (rows d') ! n" using that len by simp
        also have "\<dots> = (if issue_id (rows d ! n) = k then version (rows d ! n) + 1 else version (rows d ! n))"
          using that by (simp add: v(1))
        finally show ?thesis by simp
      qed
      with len show ?thesis by (simp add: list_all2_conv_all_nth)
    qed
    from rewrite_rows_step [OF assms v(2) this v(3)] Pair show ?thesis by simp
  qed
qed

lemma bulk_update_step:
  assumes "store_inv d"
  shows "store_inv (snd (bulk_update_issues now b d)) \<and> continues d (snd (bulk_update_issues now b d))"
proof (cases "bulk_update_issues now b d")
  case (Pair res d')
  show ?thesis
  proof (cases res)
    case (Inl err)
    with Pair have "d' = d" using bulk_update_fail by blast
    with Pair assms show ?thesis by (simp add: continues_refl)
  next
    case (Inr r)
    with Pair have ok: "bulk_update_issues now b d = (Inr r, d')" by simp
    note v = bulk_update_versions [OF ok]
    have "list_all2 (\<lambda>r r'. version r \<le> version r') (rows d) (rows d')"
    proof -
      have len: "length (rows d) = length (rows d')" using v(2) by (metis length_map)
      have "version (rows d ! n) \<le> version (rows d' ! n)" if "n < length (rows d)" for n
      proof -
        have "version (rows d' ! n) = map version (rows d') ! n" using that len by simp
        also have "\<dots> = (if issue_id (rows d ! n) \<in> set (issue_ids b) then version (rows d ! n) + 1 else version (rows d ! n))"
          using that by (simp add: v(1))
        finally show ?thesis by simp
      qed
      with len show ?thesis by (simp add: list_all2_conv_all_nth)
    qed
    from rewrite_rows_step [OF assms v(2) this v(3)] Pair show ?thesis by simp
  qed
qed

lemma delete_issue_step:
  assumes "store_inv d"
  shows "store_inv (snd (delete_issue k d)) \<and> continues d (snd (delete_issue k d))"
proof (cases "find (\<lambda>i. issue_id i = k) (rows d)")
  case None
  with assms show ?thesis by (simp add: delete_issue_def continues_refl)
next
  case (Some a)
  then have "snd (delete_issue k d) = d\<lparr>rows := filter (\<lambda>r. issue_id r \<noteq> k) (rows d)\<rparr>"
    by (simp add: delete_issue_def)
  with remove_rows_step [OF assms, of "d\<lparr>rows := filter (\<lambda>r. issue_id r \<noteq> k) (rows d)\<rparr>" "\<lambda>r. issue_id r \<noteq> k"]
  show ?thesis by simp
qed

lemma bulk_delete_step:
  assumes "store_inv d"
  shows "store_inv (snd (bulk_delete_issues ids d)) \<and> continues d (snd (bulk_delete_issues ids d))"
proof (cases "filter (\<lambda>i. issue_id i \<in> set ids) (rows d) = []")
  case True
  with assms show ?thesis by (simp add: bulk_delete_issues_def Let_def continues_refl)
next
  case False
  then have "snd (bulk_delete_issues ids d) = d\<lparr>rows := filter (\<lambda>r. issue_id r \<notin> set ids) (rows d)\<rparr>"
    by (simp add: bulk_delete_issues_def Let_def)
  with remove_rows_step [OF assms, of "d\<lparr>rows := filter (\<lambda>r. issue_id r \<notin> set ids) (rows d)\<rparr>" "\<lambda>r. issue_id r \<notin> set ids"]
  show ?thesis by simp
qed

lemma run_op_step: "store_inv d \<Longrightarrow> store_inv (run_op op d) \<and> continues d (run_op op d)"
proof (cases op)
  case (Create now c)
  assume "store_inv d"
  with Create show ?thesis using db_add_step by (simp add: create_issue_def)
next
  case (Update now k u)
  assume "store_inv d"
  with Update show ?thesis using update_issue_step by simp
next
  case (Delete k)
  assume "store_inv d"
  with Delete show ?thesis using delete_issue_step by simp
next
  case (BulkUpdate now b)
  assume "store_inv d"
  with BulkUpdate show ?thesis using bulk_update_step by simp
next
  case (BulkDelete ids)
  assume "store_inv d"
  with BulkDelete show ?thesis using bulk_delete_step by simp
next
  case (Import e reader)
  assume "store_inv d"
  with Import show ?thesis using stored_from_step by (simp add: import_issues_from_csv_outcomes)
qed

lemma run_ops_step: "store_inv d \<Longrightarrow> store_inv (fold run_op ops d) \<and> continues d (fold run_op ops d)"
proof (induction ops arbitrary: d)
  case Nil
  then show ?case by (simp add: continues_refl)
next
  case (Cons op ops)
  from run_op_step [OF Cons.prems] have 1: "store_inv (run_op op d)" "continues d (run_op op d)" by blast+
  from Cons.IH [OF 1(1)] 1(2) show ?case using continues_trans by auto
qed

lemma store_inv_empty: "store_inv empty_db"
  by (simp add: store_inv_def empty_db_def)


lemma stored_from_rows:
  "\<exists>new. rows (stored_from e n rs d) = rows d @ new \<and> list_all (\<lambda>i. version i = 1) new"
proof (induction rs arbitrary: n d)
  case Nil
  show ?case by simp
next
  case (Cons r rs)
  show ?case
  proof (cases "row_outcome e n r")
    case (Inl err)
    with Cons.IH [of "Suc n" d] show ?thesis by simp
  next
    case (Inr c)
    let ?d1 = "snd (db_add (clock e n) c d)"
    from Cons.IH [of "Suc n" ?d1] obtain new where
      new: "rows (stored_from e (Suc n) rs ?d1) = rows ?d1 @ new" "list_all (\<lambda>i. version i = 1) new"
      by blast
    have "rows ?d1 = rows d @ [new_issue (clock e n) (next_id d) c]"
      by (simp add: db_add_def Let_def)
    with new Inr have "rows (stored_from e n (r # rs) d) = rows d @ (new_issue (clock e n) (next_id d) c # new)"
      by simp
    moreover have "list_all (\<lambda>i. version i = 1) (new_issue (clock e n) (next_id d) c # new)"
      using new(2) by (simp add: new_issue_def)
    ultimately show ?thesis by blast
  qed
qed

text \<open>
  C3. In a store that satisfies the invariant (every store that a history of requests
  builds from the empty store does), a created issue has version 1, by \<open>create_issue\<close> as
  by the import; a successful \<open>update_issue\<close> adds exactly 1 to the version of the row with
  the key, which is the issue it returns and stores, and leaves the other versions; a successful \<open>bulk_update_issues\<close> adds exactly 1
  to the version of every row whose key is in the request and leaves the others; and after
  any sequence of requests the invariant still holds (no version is below 1) and no issue
  that is still stored has a smaller version than before.
\<close>

theorem version_discipline:
  assumes "store_inv d"
  shows "version (fst (create_issue now c d)) = 1
    \<and> (\<exists>new. rows (snd (import_issues_from_csv e reader d)) = rows d @ new
               \<and> list_all (\<lambda>i. version i = 1) new)
    \<and> (\<forall>i d'. update_issue now k u d = (Inr i, d') \<longrightarrow>
          get_issue k d' = Inr i
          \<and> (\<exists>old. get_issue k d = Inr old \<and> version i = version old + 1)
          \<and> map version (rows d') =
              map (\<lambda>r. if issue_id r = k then version r + 1 else version r) (rows d))
    \<and> (\<forall>res d'. bulk_update_issues now b d = (Inr res, d') \<longrightarrow>
          map version (rows d') =
            map (\<lambda>r. if issue_id r \<in> set (issue_ids b) then version r + 1 else version r)
              (rows d))
    \<and> (\<forall>ops. store_inv (fold run_op ops d) \<and> versions_never_decrease d (fold run_op ops d))"
proof (intro conjI allI impI)
  show "version (fst (create_issue now c d)) = 1"
    by (simp add: create_issue_def db_add_def new_issue_def Let_def)
  show "\<exists>new. rows (snd (import_issues_from_csv e reader d)) = rows d @ new
               \<and> list_all (\<lambda>i. version i = 1) new"
    using stored_from_rows by (simp add: import_issues_from_csv_outcomes)
next
  fix i d' assume ok: "update_issue now k u d = (Inr i, d')"
  from assms have "distinct (map issue_id (rows d))" by (rule store_inv_distinct)
  with ok show "map version (rows d') =
      map (\<lambda>r. if issue_id r = k then version r + 1 else version r) (rows d)"
    by (rule update_issue_versions(1))
  from update_issue_ok_rows [OF ok] obtain old where
    old: "find (\<lambda>r. issue_id r = k) (rows d) = Some old"
    and i: "i = (set_fields u old)\<lparr>version := version old + 1, updated_at := now\<rparr>"
    and d': "d' = d\<lparr>rows := map (\<lambda>r. if issue_id r = k then i else r) (rows d)\<rparr>"
    by blast
  from old i show "\<exists>old. get_issue k d = Inr old \<and> version i = version old + 1"
    by (simp add: get_issue_def set_fields_keeps)
  from find_issue_in [OF old] have "old \<in> set (rows d)" "issue_id old = k" by blast+
  moreover have "issue_id i = k"
    using i \<open>issue_id old = k\<close> by (simp add: set_fields_keeps)
  ultimately
  have "find (\<lambda>r. issue_id r = k) (map (\<lambda>r. if issue_id r = k then i else r) (rows d))
               = Some i"
    by (rule find_after_rewrite)
  then show "get_issue k d' = Inr i"
    by (simp add: get_issue_def d')
next
  fix res d' assume "bulk_update_issues now b d = (Inr res, d')"
  then show "map version (rows d') =
      map (\<lambda>r. if issue_id r \<in> set (issue_ids b) then version r + 1 else version r) (rows d)"
    by (rule bulk_update_versions(1))
next
  fix ops
  from run_ops_step [OF assms, of ops]
  show "store_inv (fold run_op ops d)" by blast
  from run_ops_step [OF assms, of ops] assms
  show "versions_never_decrease d (fold run_op ops d)"
    using continues_never_decrease by blast
qed

lemma reachable_store_inv: "store_inv (fold run_op history empty_db)"
  using run_ops_step [OF store_inv_empty] by blast

lemma sample_store_inv: "store_inv sample_db"
  by (simp add: store_inv_def sample_db_def issue_login_def issue_export_def issue_docs_def)

theorem version_discipline_witness:
  "store_inv sample_db
   \<and> update_issue 200 1 fresh_update sample_db =
       (Inr (issue_login\<lparr>title := ''Login fails again'', status := CLOSED, assignee := None,
                         updated_at := 200, version := 4\<rparr>),
        sample_db\<lparr>rows := [issue_login\<lparr>title := ''Login fails again'', status := CLOSED,
                               assignee := None, updated_at := 200, version := 4\<rparr>,
                             issue_export, issue_docs]\<rparr>)
   \<and> map version (rows (snd (update_issue 200 1 fresh_update sample_db))) = [4, 1, 2]
   \<and> map version (rows (snd (bulk_update_issues 210 bulk_close sample_db))) = [4, 1, 3]
   \<and> map version (rows (fold run_op sample_history sample_db)) = [5, 1]
   \<and> versions_never_decrease sample_db (fold run_op sample_history sample_db)"
proof -
  note defs = sample_db_def issue_login_def issue_export_def issue_docs_def fresh_update_def
    stale_update_def bulk_close_def
  have inv: "store_inv sample_db" by (rule sample_store_inv)
  have upd: "update_issue 200 1 fresh_update sample_db =
       (Inr (issue_login\<lparr>title := ''Login fails again'', status := CLOSED, assignee := None,
                         updated_at := 200, version := 4\<rparr>),
        sample_db\<lparr>rows := [issue_login\<lparr>title := ''Login fails again'', status := CLOSED,
                               assignee := None, updated_at := 200, version := 4\<rparr>,
                             issue_export, issue_docs]\<rparr>)"
    by (simp add: update_issue_def null_violation_def set_fields_def Let_def defs)
  have v1: "map version (rows (snd (update_issue 200 1 fresh_update sample_db))) = [4, 1, 2]"
    by (simp add: upd) (simp add: defs)
  have v2: "map version (rows (snd (bulk_update_issues 210 bulk_close sample_db))) = [4, 1, 3]"
    by (simp add: bulk_update_issues_def bulk_apply_def Let_def defs)
  have v3: "map version (rows (fold run_op sample_history sample_db)) = [5, 1]"
    by (simp add: sample_history_def update_issue_def null_violation_def set_fields_def
        bulk_update_issues_def bulk_apply_def delete_issue_def create_issue_def db_add_def
        new_issue_def bulk_delete_issues_def Let_def defs)
  from version_discipline [OF inv]
  have "versions_never_decrease sample_db (fold run_op sample_history sample_db)" by blast
  with inv upd v1 v2 v3 show ?thesis by blast
qed






lemma list_all2_same_field:
  "list_all2 (\<lambda>r r'. f r' = f r) xs ys \<Longrightarrow> map f ys = map f xs"
  by (induction xs ys rule: list_all2_induct) simp_all

text \<open>
  C10. After a successful \<open>bulk_update_issues\<close>, row by row: when the request omits the
  assignee, the assignee is the one before; an issue that had an assignee has one
  afterwards, whatever the request; when the request omits the status or the priority, that
  field is the one before; and when all three are omitted, a row with a requested key
  differs from the row before in \<open>version\<close> and \<open>updated_at\<close> only, and every other row not at
  all.
\<close>

theorem bulk_update_omitted_fields_unchanged:
  assumes "bulk_update_issues now b d = (Inr res, d')"
  shows "list_all2
     (\<lambda>r r'.
        (bulk_assignee b = None \<longrightarrow> assignee r' = assignee r)
      \<and> (assignee r \<noteq> None \<longrightarrow> assignee r' \<noteq> None)
      \<and> (bulk_status b = None \<longrightarrow> status r' = status r)
      \<and> (bulk_priority b = None \<longrightarrow> priority r' = priority r)
      \<and> (bulk_status b = None \<and> bulk_priority b = None \<and> bulk_assignee b = None \<longrightarrow>
           r' = (if issue_id r \<in> set (issue_ids b)
                 then r\<lparr>version := version r + 1, updated_at := now\<rparr> else r)))
     (rows d) (rows d')"
proof -
  from bulk_update_ok(3) [OF assms]
  have "rows d' = map (\<lambda>r. if issue_id r \<in> set (issue_ids b) then bulk_apply now b r else r) (rows d)"
    by simp
  then show ?thesis
    by (auto simp: list_all2_map2 list_all2_same bulk_apply_def split: option.splits)
qed

theorem bulk_update_omitted_fields_unchanged_witness:
  "bulk_update_issues 300 bulk_touch sample_db =
     (Inr \<lparr>updated_count = 2, updated_ids = [2, 4]\<rparr>,
      sample_db\<lparr>rows := [issue_login,
                         issue_export\<lparr>version := 2, updated_at := 300\<rparr>,
                         issue_docs\<lparr>version := 3, updated_at := 300\<rparr>]\<rparr>)
   \<and> map assignee (rows (snd (bulk_update_issues 300 bulk_touch sample_db)))
       = [Some ''alice'', None, Some ''bob'']"
proof -
  note defs = sample_db_def issue_login_def issue_export_def issue_docs_def bulk_touch_def
  have run: "bulk_update_issues 300 bulk_touch sample_db =
     (Inr \<lparr>updated_count = 2, updated_ids = [2, 4]\<rparr>,
      sample_db\<lparr>rows := [issue_login,
                         issue_export\<lparr>version := 2, updated_at := 300\<rparr>,
                         issue_docs\<lparr>version := 3, updated_at := 300\<rparr>]\<rparr>)"
    by (simp add: bulk_update_issues_def bulk_apply_def Let_def defs)
  have none: "bulk_assignee bulk_touch = None"
    by (simp add: bulk_touch_def)
  have old: "map assignee (rows sample_db) = [Some ''alice'', None, Some ''bob'']"
    by (simp add: defs)
  from bulk_update_omitted_fields_unchanged [OF run]
  have "list_all2 (\<lambda>r r'. assignee r' = assignee r) (rows sample_db)
          (rows (sample_db\<lparr>rows := [issue_login,
                         issue_export\<lparr>version := 2, updated_at := 300\<rparr>,
                         issue_docs\<lparr>version := 3, updated_at := 300\<rparr>]\<rparr>))"
    by (rule list_all2_mono) (simp add: none)
  then have "map assignee (rows (sample_db\<lparr>rows := [issue_login,
                         issue_export\<lparr>version := 2, updated_at := 300\<rparr>,
                         issue_docs\<lparr>version := 3, updated_at := 300\<rparr>]\<rparr>))
       = map assignee (rows sample_db)"
    by (rule list_all2_same_field)
  then have "map assignee (rows (snd (bulk_update_issues 300 bulk_touch sample_db)))
       = map assignee (rows sample_db)"
    by (simp only: run snd_conv)
  with run old show ?thesis by simp
qed

section \<open>Properties of the statistics\<close>

lemma by_status_list:
  "by_status (get_issue_stats d) =
     [(''open'', count_where (\<lambda>i. status i = OPEN) d),
      (''in_progress'', count_where (\<lambda>i. status i = IN_PROGRESS) d),
      (''resolved'', count_where (\<lambda>i. status i = RESOLVED) d),
      (''closed'', count_where (\<lambda>i. status i = CLOSED) d)]"
  by (simp add: get_issue_stats_def StatusEnum_members_def Let_def)

lemma by_priority_list:
  "by_priority (get_issue_stats d) =
     [(''low'', count_where (\<lambda>i. priority i = LOW) d),
      (''medium'', count_where (\<lambda>i. priority i = MEDIUM) d),
      (''high'', count_where (\<lambda>i. priority i = HIGH) d),
      (''critical'', count_where (\<lambda>i. priority i = CRITICAL) d)]"
  by (simp add: get_issue_stats_def PriorityEnum_members_def Let_def)

lemma status_counts_sum:
  "length (filter (\<lambda>i. status i = OPEN) xs) + length (filter (\<lambda>i. status i = IN_PROGRESS) xs)
   + length (filter (\<lambda>i. status i = RESOLVED) xs) + length (filter (\<lambda>i. status i = CLOSED) xs)
   = length xs"
proof (induction xs)
  case Nil
  show ?case by simp
next
  case (Cons x xs)
  then show ?case by (cases "status x") simp_all
qed

lemma priority_counts_sum:
  "length (filter (\<lambda>i. priority i = LOW) xs) + length (filter (\<lambda>i. priority i = MEDIUM) xs)
   + length (filter (\<lambda>i. priority i = HIGH) xs) + length (filter (\<lambda>i. priority i = CRITICAL) xs)
   = length xs"
proof (induction xs)
  case Nil
  show ?case by simp
next
  case (Cons x xs)
  then show ?case by (cases "priority x") simp_all
qed

lemma unassigned_bucket:
  "map_of (by_assignee (get_issue_stats d)) ''unassigned'' = Some (count_where (\<lambda>i. assignee i = None) d)"
  by (simp add: get_issue_stats_def Let_def update_conv')

text \<open>
  C9. The \<open>by_status\<close> dictionary of \<open>get_issue_stats\<close> has the four status values as keys
  and \<open>by_priority\<close> the four priority values, whatever the store holds; the counts of each
  add up to \<open>total_issues\<close>; \<open>by_assignee\<close> has the key \<open>unassigned\<close> with the number of
  rows without assignee; and the total and the eight counts of \<open>get_issue_summary\<close> are the
  entries of the statistics under the same status or priority.
\<close>

theorem stats_and_summary_consistent:
  "map fst (by_status (get_issue_stats d)) = map status_value StatusEnum_members
   \<and> map fst (by_priority (get_issue_stats d)) = map priority_value PriorityEnum_members
   \<and> sum_list (map snd (by_status (get_issue_stats d))) = total_issues (get_issue_stats d)
   \<and> sum_list (map snd (by_priority (get_issue_stats d))) = total_issues (get_issue_stats d)
   \<and> map_of (by_assignee (get_issue_stats d)) ''unassigned''
       = Some (length (filter (\<lambda>i. assignee i = None) (rows d)))
   \<and> summary_total_issues (get_issue_summary d) = total_issues (get_issue_stats d)
   \<and> map_of (by_status (get_issue_stats d)) ''open'' = Some (open_issues (get_issue_summary d))
   \<and> map_of (by_status (get_issue_stats d)) ''in_progress''
       = Some (in_progress_issues (get_issue_summary d))
   \<and> map_of (by_status (get_issue_stats d)) ''resolved''
       = Some (resolved_issues (get_issue_summary d))
   \<and> map_of (by_status (get_issue_stats d)) ''closed'' = Some (closed_issues (get_issue_summary d))
   \<and> map_of (by_priority (get_issue_stats d)) ''low'' = Some (low_priority (get_issue_summary d))
   \<and> map_of (by_priority (get_issue_stats d)) ''medium''
       = Some (medium_priority (get_issue_summary d))
   \<and> map_of (by_priority (get_issue_stats d)) ''high'' = Some (high_priority (get_issue_summary d))
   \<and> map_of (by_priority (get_issue_stats d)) ''critical''
       = Some (critical_priority (get_issue_summary d))"
proof -
  have total: "total_issues (get_issue_stats d) = length (rows d)"
    by (simp add: get_issue_stats_def Let_def)
  have s: "sum_list (map snd (by_status (get_issue_stats d))) = length (rows d)"
    using status_counts_sum [of "rows d"] by (simp add: by_status_list count_where_def)
  have p: "sum_list (map snd (by_priority (get_issue_stats d))) = length (rows d)"
    using priority_counts_sum [of "rows d"] by (simp add: by_priority_list count_where_def)
  have u: "map_of (by_assignee (get_issue_stats d)) ''unassigned''
       = Some (length (filter (\<lambda>i. assignee i = None) (rows d)))"
    using unassigned_bucket [of d] by (simp add: count_where_def)
  show ?thesis
    by (simp add: total s p u)
       (simp add: by_status_list by_priority_list get_issue_summary_def
          StatusEnum_members_def PriorityEnum_members_def)
qed

section \<open>Properties of the CSV import\<close>

lemma parse_fields_Inr:
  assumes "parse_fields r = Inr issue"
  shows "\<exists>s p t. dict_get r ''status'' ''open'' = Some s \<and> dict_get r ''priority'' ''medium'' = Some p
           \<and> dict_get r ''title'' [] = Some t
           \<and> status issue = parse_status (lower (strip s))
           \<and> priority issue = parse_priority (lower (strip p))
           \<and> title issue = strip t
           \<and> validation_errors issue = []"
  using assms
  by (auto simp: parse_fields_def raising_def stripped_def IssueCreate_init_def
      split: sum.splits option.splits if_splits)

text \<open>
  C6. \<open>parse_status\<close> and \<open>parse_priority\<close> are functions on all strings. On the trimmed,
  lower-case token, \<open>in progress\<close> and \<open>in_progress\<close> give \<open>IN_PROGRESS\<close>, \<open>open\<close>, \<open>resolved\<close>
  and \<open>closed\<close> their values and every other string, the empty one too, \<open>OPEN\<close>; \<open>low\<close>,
  \<open>medium\<close>, \<open>high\<close> and \<open>critical\<close> give their values and every other string \<open>MEDIUM\<close>. In
  a row that parses, the status and the priority of the issue are these functions of the
  trimmed, lower-case cells, and \<open>OPEN\<close> and \<open>MEDIUM\<close> when the column is missing.
  No token makes a row fail: a row with any two strings in the two cells parses exactly
  when the row without the two columns does.
\<close>

theorem enum_normalization:
  "parse_status ''in progress'' = IN_PROGRESS
   \<and> parse_status ''in_progress'' = IN_PROGRESS
   \<and> parse_status ''open'' = OPEN
   \<and> parse_status ''resolved'' = RESOLVED
   \<and> parse_status ''closed'' = CLOSED
   \<and> (t \<notin> {''in progress'', ''in_progress'', ''resolved'', ''closed''} \<longrightarrow> parse_status t = OPEN)
   \<and> parse_priority ''low'' = LOW
   \<and> parse_priority ''medium'' = MEDIUM
   \<and> parse_priority ''high'' = HIGH
   \<and> parse_priority ''critical'' = CRITICAL
   \<and> (t \<notin> {''low'', ''high'', ''critical''} \<longrightarrow> parse_priority t = MEDIUM)
   \<and> (parse_fields r = Inr issue \<longrightarrow>
        status issue =
          (case r ''status'' of
             None \<Rightarrow> OPEN
           | Some cell \<Rightarrow> parse_status (lower (strip (the cell))))
        \<and> priority issue =
          (case r ''priority'' of
             None \<Rightarrow> MEDIUM
           | Some cell \<Rightarrow> parse_priority (lower (strip (the cell)))))
   \<and> isl (parse_fields (r(''status'' \<mapsto> Some s, ''priority'' \<mapsto> Some p)))
       = isl (parse_fields (r(''status'' := None, ''priority'' := None)))"
proof -
  have tokens: "parse_status ''in progress'' = IN_PROGRESS" "parse_status ''in_progress'' = IN_PROGRESS"
    "parse_status ''open'' = OPEN" "parse_status ''resolved'' = RESOLVED" "parse_status ''closed'' = CLOSED"
    "parse_priority ''low'' = LOW" "parse_priority ''medium'' = MEDIUM"
    "parse_priority ''high'' = HIGH" "parse_priority ''critical'' = CRITICAL"
    by (simp_all add: parse_status_def parse_priority_def)
  have other: "t \<notin> {''in progress'', ''in_progress'', ''resolved'', ''closed''} \<longrightarrow> parse_status t = OPEN"
    "t \<notin> {''low'', ''high'', ''critical''} \<longrightarrow> parse_priority t = MEDIUM"
    by (simp_all add: parse_status_def parse_priority_def)
  have absent: "lower (strip ''open'') = ''open''" "lower (strip ''medium'') = ''medium''"
    by code_simp+
  have row: "status issue = (case r ''status'' of None \<Rightarrow> OPEN
                              | Some cell \<Rightarrow> parse_status (lower (strip (the cell))))
      \<and> priority issue = (case r ''priority'' of None \<Rightarrow> MEDIUM
                              | Some cell \<Rightarrow> parse_priority (lower (strip (the cell))))"
    if "parse_fields r = Inr issue"
    using parse_fields_Inr [OF that] tokens absent
    by (auto simp: dict_get_def split: option.splits)
  have never: "isl (parse_fields (r(''status'' \<mapsto> Some s, ''priority'' \<mapsto> Some p)))
       = isl (parse_fields (r(''status'' := None, ''priority'' := None)))"
    by (simp add: parse_fields_def raising_def stripped_def dict_get_def
        IssueCreate_init_def validation_errors_def split: option.splits sum.splits)
  from tokens other row never show ?thesis by blast
qed

theorem enum_normalization_witness:
  "''urgent'' \<notin> {''in progress'', ''in_progress'', ''resolved'', ''closed''}
   \<and> parse_status ''urgent'' = OPEN
   \<and> ''urgent'' \<notin> {''low'', ''high'', ''critical''}
   \<and> parse_priority ''urgent'' = MEDIUM
   \<and> parse_fields row_mixed =
       Inr \<lparr>title = ''Fix login'', description = None, status = IN_PROGRESS,
            priority = MEDIUM, assignee = None, reporter = None\<rparr>
   \<and> parse_status (lower (strip '' In Progress '')) = IN_PROGRESS
   \<and> parse_priority (lower (strip ''URGENT'')) = MEDIUM"
proof -
  have parsed: "parse_fields row_mixed =
       Inr \<lparr>title = ''Fix login'', description = None, status = IN_PROGRESS,
            priority = MEDIUM, assignee = None, reporter = None\<rparr>"
    by code_simp
  have cells: "row_mixed ''status'' = Some (Some '' In Progress '')"
    "row_mixed ''priority'' = Some (Some ''URGENT'')"
    by (simp_all add: row_mixed_def)
  have s: "''urgent'' \<notin> {''in progress'', ''in_progress'', ''resolved'', ''closed''}"
    and p: "''urgent'' \<notin> {''low'', ''high'', ''critical''}"
    by simp_all
  from enum_normalization [of "''urgent''" row_mixed
      "\<lparr>title = ''Fix login'', description = None, status = IN_PROGRESS,
        priority = MEDIUM, assignee = None, reporter = None\<rparr>"] s p parsed cells
  show ?thesis by simp
qed

lemma parse_fields_valid:
  "parse_fields r = Inr issue \<Longrightarrow> validation_errors issue = []"
  by (auto simp: parse_fields_def raising_def stripped_def IssueCreate_init_def
      split: sum.splits option.splits if_splits)

lemma valid_title_nonempty: "validation_errors c = [] \<Longrightarrow> title c \<noteq> []"
  by (auto simp: validation_errors_def split: if_splits)

lemma parse_csv_row_cases:
  "(\<exists>ex. parse_fields r = Inl ex
        \<and> parse_csv_row str r n = (None, Some \<lparr>row = n, error = ''Parsing error: '' @ str ex\<rparr>))
   \<or> (\<exists>issue. parse_fields r = Inr issue \<and> parse_csv_row str r n = (Some issue, None))"
proof (cases "parse_fields r")
  case (Inl ex)
  then show ?thesis by (simp add: parse_csv_row_def)
next
  case (Inr issue)
  with parse_fields_valid valid_title_nonempty have "title issue \<noteq> []" by blast
  with Inr show ?thesis by (simp add: parse_csv_row_def)
qed

lemma row_outcome_error:
  assumes "row_outcome e n r = Inl err"
  shows "row err = n \<and> error err \<noteq> []"
  using assms parse_csv_row_cases [of r "exn_text e" n]
  by (auto simp: row_outcome_def split: option.splits)

lemma outcomes_from_nth:
  "outcomes_from e n rs = map (\<lambda>j. row_outcome e (j + n) (rs ! j)) [0..<length rs]"
proof (induction rs arbitrary: n)
  case Nil
  show ?case by simp
next
  case (Cons r rs)
  have "[0..<length (r # rs)] = 0 # map Suc [0..<length rs]"
    by (simp add: upt_conv_Cons map_Suc_upt del: upt_Suc)
  then show ?case by (simp add: Cons.IH comp_def)
qed

lemma import_result_rows:
  "successful (fst (import_issues_from_csv e reader d)) = length (successful_rows e reader)"
  "failed (fst (import_issues_from_csv e reader d)) = length (failed_rows e reader)"
  "errors (fst (import_issues_from_csv e reader d)) =
     map (\<lambda>j. projl (row_outcome e (j + 2) (reader ! j))) (failed_rows e reader)"
  "total_rows (fst (import_issues_from_csv e reader d)) = length reader"
  by (simp_all add: import_issues_from_csv_outcomes outcomes_from_nth successful_rows_def
      failed_rows_def filter_map comp_def)

lemma rows_partition:
  "length (successful_rows e reader) + length (failed_rows e reader) = length reader"
  using sum_length_filter_compl [of "\<lambda>j. isl (row_outcome e (j + 2) (reader ! j))" "[0..<length reader]"]
  by (simp add: successful_rows_def failed_rows_def)

lemma failed_rows_numbers:
  "map row (map (\<lambda>j. projl (row_outcome e (j + 2) (reader ! j))) (failed_rows e reader))
     = map (\<lambda>j. j + 2) (failed_rows e reader)"
proof -
  have "row (projl (row_outcome e (j + 2) (reader ! j))) = j + 2"
    if "j \<in> set (failed_rows e reader)" for j
  proof -
    from that have "isl (row_outcome e (j + 2) (reader ! j))" by (simp add: failed_rows_def)
    then obtain err where "row_outcome e (j + 2) (reader ! j) = Inl err" by (auto simp: isl_def)
    with row_outcome_error [OF this] show ?thesis by simp
  qed
  then show ?thesis by simp
qed

lemma failed_rows_messages:
  "list_all (\<lambda>x. error x \<noteq> [])
     (map (\<lambda>j. projl (row_outcome e (j + 2) (reader ! j))) (failed_rows e reader))"
proof -
  have "error (projl (row_outcome e (j + 2) (reader ! j))) \<noteq> []"
    if "j \<in> set (failed_rows e reader)" for j
  proof -
    from that have "isl (row_outcome e (j + 2) (reader ! j))" by (simp add: failed_rows_def)
    then obtain err where "row_outcome e (j + 2) (reader ! j) = Inl err" by (auto simp: isl_def)
    with row_outcome_error [OF this] show ?thesis by simp
  qed
  then show ?thesis by (simp add: list_all_iff)
qed

lemma stored_from_length:
  "length (rows (stored_from e n rs d))
     = length (rows d) + length (filter (\<lambda>x. \<not> isl x) (outcomes_from e n rs))"
proof (induction rs arbitrary: n d)
  case Nil
  show ?case by simp
next
  case (Cons r rs)
  show ?case
    by (cases "row_outcome e n r") (simp_all add: Cons.IH db_add_def Let_def)
qed

lemma other_rows_failed:
  "filter (\<lambda>j. j \<noteq> k) (failed_rows e (reader[k := r']))
     = filter (\<lambda>j. j \<noteq> k) (failed_rows e reader)"
  unfolding failed_rows_def filter_filter length_list_update
  by (rule filter_cong) auto

lemma other_rows_successful:
  "filter (\<lambda>j. j \<noteq> k) (successful_rows e (reader[k := r']))
     = filter (\<lambda>j. j \<noteq> k) (successful_rows e reader)"
  unfolding successful_rows_def filter_filter length_list_update
  by (rule filter_cong) auto

lemma other_rows_errors:
  "filter (\<lambda>x. row x \<noteq> k + 2) (errors (fst (import_issues_from_csv e (reader[k := r']) d)))
     = filter (\<lambda>x. row x \<noteq> k + 2) (errors (fst (import_issues_from_csv e reader d)))"
proof -
  have sel: "filter (\<lambda>x. row x \<noteq> k + 2)
               (map (\<lambda>j. projl (row_outcome e (j + 2) (rd ! j))) (failed_rows e rd))
             = map (\<lambda>j. projl (row_outcome e (j + 2) (rd ! j)))
                 (filter (\<lambda>j. j \<noteq> k) (failed_rows e rd))" for rd
  proof -
    have "(row (projl (row_outcome e (j + 2) (rd ! j))) \<noteq> k + 2) = (j \<noteq> k)"
      if "j \<in> set (failed_rows e rd)" for j
    proof -
      from that have "isl (row_outcome e (j + 2) (rd ! j))" by (simp add: failed_rows_def)
      then obtain err where "row_outcome e (j + 2) (rd ! j) = Inl err" by (auto simp: isl_def)
      with row_outcome_error [OF this] show ?thesis by simp
    qed
    then show ?thesis by (simp add: filter_map comp_def cong: filter_cong)
  qed
  have same: "map (\<lambda>j. projl (row_outcome e (j + 2) (reader[k := r'] ! j)))
          (filter (\<lambda>j. j \<noteq> k) (failed_rows e reader))
        = map (\<lambda>j. projl (row_outcome e (j + 2) (reader ! j)))
          (filter (\<lambda>j. j \<noteq> k) (failed_rows e reader))"
    by (rule map_cong) auto
  have "filter (\<lambda>x. row x \<noteq> k + 2) (errors (fst (import_issues_from_csv e (reader[k := r']) d)))
      = filter (\<lambda>x. row x \<noteq> k + 2)
          (map (\<lambda>j. projl (row_outcome e (j + 2) (reader[k := r'] ! j)))
             (failed_rows e (reader[k := r'])))"
    by (simp only: import_result_rows(3))
  also have "\<dots> = map (\<lambda>j. projl (row_outcome e (j + 2) (reader[k := r'] ! j)))
                   (filter (\<lambda>j. j \<noteq> k) (failed_rows e (reader[k := r'])))"
    by (rule sel)
  also have "\<dots> = map (\<lambda>j. projl (row_outcome e (j + 2) (reader[k := r'] ! j)))
                   (filter (\<lambda>j. j \<noteq> k) (failed_rows e reader))"
    by (simp only: other_rows_failed)
  also have "\<dots> = map (\<lambda>j. projl (row_outcome e (j + 2) (reader ! j)))
                   (filter (\<lambda>j. j \<noteq> k) (failed_rows e reader))"
    by (rule same)
  also have "\<dots> = filter (\<lambda>x. row x \<noteq> k + 2)
                   (map (\<lambda>j. projl (row_outcome e (j + 2) (reader ! j))) (failed_rows e reader))"
    by (rule sel [symmetric])
  also have "\<dots> = filter (\<lambda>x. row x \<noteq> k + 2) (errors (fst (import_issues_from_csv e reader d)))"
    by (simp only: import_result_rows(3))
  finally show ?thesis .
qed

text \<open>
  C4. For every list of rows that the reader yields, every store and every surroundings:
  \<open>total_rows\<close> is the number of rows and the sum of \<open>successful\<close> and \<open>failed\<close>; every row
  counts in exactly one of the two, \<open>successful\<close> being the number of rows whose pass of the
  loop commits an issue (the store grows by that many rows) and \<open>failed\<close> the number of the
  others; \<open>errors\<close> holds, in order, the error of each failed row, with the row's number
  (position plus 2) and a message that is not empty. The verdict on a row depends on that
  row alone: when the row at position \<open>k\<close> is replaced by any other row, the other rows that
  succeed, the other rows that fail and the errors of the other rows are the same.
\<close>

theorem import_counts_and_isolation:
  "total_rows (fst (import_issues_from_csv e reader d)) = length reader
   \<and> total_rows (fst (import_issues_from_csv e reader d))
       = successful (fst (import_issues_from_csv e reader d))
         + failed (fst (import_issues_from_csv e reader d))
   \<and> successful (fst (import_issues_from_csv e reader d)) = length (successful_rows e reader)
   \<and> failed (fst (import_issues_from_csv e reader d)) = length (failed_rows e reader)
   \<and> length (rows (snd (import_issues_from_csv e reader d)))
       = length (rows d) + successful (fst (import_issues_from_csv e reader d))
   \<and> errors (fst (import_issues_from_csv e reader d))
       = map (\<lambda>j. projl (row_outcome e (j + 2) (reader ! j))) (failed_rows e reader)
   \<and> map row (errors (fst (import_issues_from_csv e reader d)))
       = map (\<lambda>j. j + 2) (failed_rows e reader)
   \<and> list_all (\<lambda>x. error x \<noteq> []) (errors (fst (import_issues_from_csv e reader d)))
   \<and> filter (\<lambda>j. j \<noteq> k) (successful_rows e (reader[k := r']))
       = filter (\<lambda>j. j \<noteq> k) (successful_rows e reader)
   \<and> filter (\<lambda>j. j \<noteq> k) (failed_rows e (reader[k := r']))
       = filter (\<lambda>j. j \<noteq> k) (failed_rows e reader)
   \<and> filter (\<lambda>x. row x \<noteq> k + 2) (errors (fst (import_issues_from_csv e (reader[k := r']) d)))
       = filter (\<lambda>x. row x \<noteq> k + 2) (errors (fst (import_issues_from_csv e reader d)))"
proof -
  have stored: "length (rows (snd (import_issues_from_csv e reader d)))
       = length (rows d) + successful (fst (import_issues_from_csv e reader d))"
    by (simp add: import_issues_from_csv_outcomes stored_from_length)
  have sum: "total_rows (fst (import_issues_from_csv e reader d))
       = successful (fst (import_issues_from_csv e reader d))
         + failed (fst (import_issues_from_csv e reader d))"
    using rows_partition [of e reader] by (simp add: import_result_rows)
  have numbers: "map row (errors (fst (import_issues_from_csv e reader d)))
       = map (\<lambda>j. j + 2) (failed_rows e reader)"
    using failed_rows_numbers [of e reader] by (simp only: import_result_rows(3))
  have messages: "list_all (\<lambda>x. error x \<noteq> []) (errors (fst (import_issues_from_csv e reader d)))"
    using failed_rows_messages [of e reader] by (simp only: import_result_rows(3))
  from stored sum numbers messages import_result_rows [of e reader d]
    other_rows_successful [of k e reader r'] other_rows_failed [of k e reader r']
    other_rows_errors [of k e reader r' d]
  show ?thesis by blast
qed

lemma parse_five_rows:
  "parse_fields row_crash =
     Inr \<lparr>title = ''Crash on save'', description = None, status = OPEN, priority = MEDIUM,
          assignee = None, reporter = None\<rparr>"
  "parse_fields row_search =
     Inr \<lparr>title = ''Slow search'', description = None, status = IN_PROGRESS, priority = MEDIUM,
          assignee = None, reporter = None\<rparr>"
  "parse_fields row_blank = Inl (ValidationError [''title''])"
  "parse_fields row_typo =
     Inr \<lparr>title = ''Typo'', description = None, status = CLOSED, priority = MEDIUM,
          assignee = None, reporter = None\<rparr>"
  "parse_fields row_dark =
     Inr \<lparr>title = ''Dark mode'', description = None, status = RESOLVED, priority = MEDIUM,
          assignee = None, reporter = None\<rparr>"
  by code_simp+

lemma title_required_never_reported:
  "snd (parse_csv_row str r n)
     \<noteq> Some \<lparr>row = m, error = ''Title is required and cannot be empty''\<rparr>"
  using parse_csv_row_cases [of r str n] by auto

text \<open>
  C2. The import of the five rows whose third title is blank, into the empty store, with
  no failing commit: the counts are 5, 4 and 1, the four other rows are stored and nothing
  for the blank one, and the one error has the row number 4. Its text is not the text of
  the title check: the constructor of \<open>IssueCreate\<close> refuses the empty title first
  (\<open>min_length=1\<close>), the \<open>except\<close> clause catches the exception, and the error reads
  \<open>Parsing error:\<close> followed by the text of the validation error. The branch of
  \<open>parse_csv_row\<close> that reports the missing title is never taken.
\<close>

theorem blank_title_reported_as_parsing_error:
  "import_issues_from_csv (quiet_env str) five_rows empty_db =
     (\<lparr>total_rows = 5, successful = 4, failed = 1,
       errors = [\<lparr>row = 4, error = ''Parsing error: '' @ str (ValidationError [''title''])\<rparr>]\<rparr>,
      \<lparr>rows = [new_issue 2 1 \<lparr>title = ''Crash on save'', description = None, status = OPEN,
                   priority = MEDIUM, assignee = None, reporter = None\<rparr>,
               new_issue 3 2 \<lparr>title = ''Slow search'', description = None, status = IN_PROGRESS,
                   priority = MEDIUM, assignee = None, reporter = None\<rparr>,
               new_issue 5 3 \<lparr>title = ''Typo'', description = None, status = CLOSED,
                   priority = MEDIUM, assignee = None, reporter = None\<rparr>,
               new_issue 6 4 \<lparr>title = ''Dark mode'', description = None, status = RESOLVED,
                   priority = MEDIUM, assignee = None, reporter = None\<rparr>],
        next_id = 5\<rparr>)
   \<and> ''Parsing error: '' @ str (ValidationError [''title''])
       \<noteq> ''Title is required and cannot be empty''"
  by (simp add: import_issues_from_csv_def five_rows_def quiet_env_def empty_db_def
      parse_csv_row_def parse_five_rows db_add_def Let_def)

section \<open>Properties of the listing\<close>

lemma like_percent_all: "like ''%'' t"
  by (induction t) simp_all

lemma like_plain_prefix:
  "no_wildcards s \<Longrightarrow> like (s @ q) t \<longleftrightarrow> (\<exists>u. t = s @ u \<and> like q u)"
proof (induction s arbitrary: t)
  case Nil
  show ?case by simp
next
  case (Cons c s)
  then have c: "c \<noteq> CHR ''%''" "c \<noteq> CHR ''_''" and s: "no_wildcards s"
    by (auto simp: no_wildcards_def)
  show ?case
  proof (cases t)
    case Nil
    with c show ?thesis by simp
  next
    case (Cons x xs)
    with c Cons.IH [OF s, of xs] show ?thesis by auto
  qed
qed

lemma like_percent_prefix: "like (CHR ''%'' # q) t \<longleftrightarrow> (\<exists>a b. t = a @ b \<and> like q b)"
proof (induction t)
  case Nil
  show ?case by (cases q) auto
next
  case (Cons c cs)
  have "(\<exists>a b. c # cs = a @ b \<and> like q b) \<longleftrightarrow> like q (c # cs) \<or> (\<exists>a b. cs = a @ b \<and> like q b)"
    (is "?L \<longleftrightarrow> ?R")
  proof
    assume ?L
    then obtain a b where ab: "c # cs = a @ b" "like q b" by blast
    show ?R
    proof (cases a)
      case Nil
      with ab show ?thesis by simp
    next
      case (Cons x a')
      with ab have "cs = a' @ b" by simp
      with ab(2) show ?thesis by blast
    qed
  next
    assume ?R
    then show ?L
    proof
      assume "like q (c # cs)"
      then have "c # cs = [] @ (c # cs) \<and> like q (c # cs)" by simp
      then show ?L by blast
    next
      assume "\<exists>a b. cs = a @ b \<and> like q b"
      then obtain a b where "cs = a @ b" "like q b" by blast
      then have "c # cs = (c # a) @ b \<and> like q b" by simp
      then show ?L by blast
    qed
  qed
  with Cons.IH show ?case by simp
qed

lemma like_contains:
  assumes "no_wildcards s"
  shows "like (''%'' @ s @ ''%'') t \<longleftrightarrow> sublist s t"
proof -
  have "like (''%'' @ s @ ''%'') t \<longleftrightarrow> (\<exists>a b. t = a @ b \<and> like (s @ ''%'') b)"
    using like_percent_prefix [of "s @ ''%''" t] by simp
  also have "\<dots> \<longleftrightarrow> (\<exists>a b. t = a @ b \<and> (\<exists>u. b = s @ u))"
    using like_plain_prefix [OF assms, of "''%''"] like_percent_all by simp
  also have "\<dots> \<longleftrightarrow> sublist s t"
    by (auto simp: sublist_def)
  finally show ?thesis .
qed

lemma lower_char_wildcards:
  "lower_char c = CHR ''%'' \<longleftrightarrow> c = CHR ''%''"
  "lower_char c = CHR ''_'' \<longleftrightarrow> c = CHR ''_''"
  by (auto simp: lower_char_def split: option.splits dest!: map_of_SomeD)

lemma lower_no_wildcards: "no_wildcards (lower s) \<longleftrightarrow> no_wildcards s"
proof -
  have "CHR ''%'' \<in> lower_char ` set s \<longleftrightarrow> CHR ''%'' \<in> set s"
    using lower_char_wildcards(1) by (metis (no_types, lifting) image_iff)
  moreover have "CHR ''_'' \<in> lower_char ` set s \<longleftrightarrow> CHR ''_'' \<in> set s"
    using lower_char_wildcards(2) by (metis (no_types, lifting) image_iff)
  ultimately show ?thesis by (simp add: no_wildcards_def lower_def)
qed

lemma lower_pattern: "lower (''%'' @ s @ ''%'') = ''%'' @ lower s @ ''%''"
  by (simp add: lower_def lower_char_def)

lemma ilike_contains:
  assumes "no_wildcards s"
  shows "ilike column (''%'' @ s @ ''%'') \<longleftrightarrow> contains_ci s column"
proof (cases column)
  case None
  then show ?thesis by (simp add: ilike_def contains_ci_def)
next
  case (Some x)
  from assms have "no_wildcards (lower s)" by (simp add: lower_no_wildcards)
  from like_contains [OF this, of "lower x"] Some show ?thesis
    by (simp only: ilike_def contains_ci_def lower_pattern option.case)
qed

lemma query_filter_passes:
  assumes "search = None \<or> no_wildcards (the search)"
  shows "query_filter st pr asg search xs = filter (passes st pr asg search) xs"
proof -
  have q1: "(case st of Some s \<Rightarrow> filter (\<lambda>i. status i = s) xs | None \<Rightarrow> xs)
            = filter (\<lambda>i. st = None \<or> st = Some (status i)) xs"
    by (cases st) (auto intro: filter_cong)
  have q2: "(case pr of Some p \<Rightarrow> filter (\<lambda>i. priority i = p) ys | None \<Rightarrow> ys)
            = filter (\<lambda>i. pr = None \<or> pr = Some (priority i)) ys" for ys
    by (cases pr) (auto intro: filter_cong)
  have q3: "(if truthy asg then filter (\<lambda>i. assignee i = Some (the asg)) ys else ys)
            = filter (\<lambda>i. asg = None \<or> asg = Some [] \<or> asg = assignee i) ys" for ys
    by (cases asg) (auto simp: truthy_def intro: filter_cong)
  have q4: "(if truthy search
             then filter (\<lambda>i. ilike (Some (title i)) (''%'' @ the search @ ''%'')
                             \<or> ilike (description i) (''%'' @ the search @ ''%'')) ys
             else ys)
            = filter (\<lambda>i. search = None \<or> contains_ci (the search) (Some (title i))
                             \<or> contains_ci (the search) (description i)) ys" for ys
  proof (cases search)
    case None
    then show ?thesis by (simp add: truthy_def)
  next
    case (Some s)
    with assms have plain: "no_wildcards s" by simp
    show ?thesis
    proof (cases "s = []")
      case True
      with Some show ?thesis by (simp add: truthy_def contains_ci_def lower_def)
    next
      case False
      with Some ilike_contains [OF plain] show ?thesis
        by (simp add: truthy_def)
    qed
  qed
  show ?thesis
    unfolding query_filter_def Let_def q1 q2 q3 q4 passes_def
    by (simp add: conj_commute conj_left_commute cong: filter_cong)
qed

lemma set_order_by: "set (order_by_created_at_desc xs) = set xs"
  by (simp add: order_by_created_at_desc_def)

text \<open>
  C7, as amended. The filter stage of \<open>list_issues\<close> returns, in stored order, exactly the
  rows that pass every supplied filter: the status, when one is given; the priority, when
  one is given; the assignee, when a string that is not empty is given, by equality with the
  stored assignee (an empty string filters nothing, as no string does); and the search
  term, when it has neither \<open>%\<close> nor \<open>_\<close>, by occurring in the title or in the description,
  letter case apart. A listing is a page of these rows in the order of the listing.
\<close>

theorem query_filter_selects:
  assumes "search = None \<or> no_wildcards (the search)"
  shows "query_filter st pr asg search (rows d) = filter (passes st pr asg search) (rows d)
   \<and> set (order_by_created_at_desc (query_filter st pr asg search (rows d)))
       = {i \<in> set (rows d). passes st pr asg search i}
   \<and> (\<forall>result. list_issues st pr asg search skip_param limit_param d = Inr result \<longrightarrow>
         result =
           take (nat (case limit_param of None \<Rightarrow> 100 | Some n \<Rightarrow> n))
             (drop (nat (case skip_param of None \<Rightarrow> 0 | Some n \<Rightarrow> n))
                (order_by_created_at_desc (filter (passes st pr asg search) (rows d)))))"
proof -
  note q = query_filter_passes [OF assms, of st pr asg "rows d"]
  have "set (order_by_created_at_desc (query_filter st pr asg search (rows d)))
       = {i \<in> set (rows d). passes st pr asg search i}"
    by (simp add: q set_order_by)
  moreover have "result =
           take (nat (case limit_param of None \<Rightarrow> 100 | Some n \<Rightarrow> n))
             (drop (nat (case skip_param of None \<Rightarrow> 0 | Some n \<Rightarrow> n))
                (order_by_created_at_desc (filter (passes st pr asg search) (rows d))))"
    if "list_issues st pr asg search skip_param limit_param d = Inr result" for result
    using that
    by (auto simp: list_issues_def Let_def offset_def limit_to_def q split: if_splits)
  ultimately show ?thesis using q by blast
qed

text \<open>
  The claim as stated fails twice on the sample store. Asked for the assignee \<open>''\<close> (the
  request \<open>?assignee=\<close>), the listing returns the issue assigned to alice, because
  \<open>if assignee:\<close> skips the filter for the empty string. Asked for the term \<open>s_o\<close>, it returns
  the issue whose title is \<open>Export is slow\<close>, which has no \<open>s_o\<close> in title or description,
  because \<open>_\<close> in the pattern of \<open>ilike\<close> stands for any character.
\<close>

theorem filters_counterexample:
  "issue_login \<in> set (query_filter None None (Some '''') None (rows sample_db))
   \<and> assignee issue_login \<noteq> Some ''''
   \<and> issue_export \<in> set (query_filter None None None (Some ''s_o'') (rows sample_db))
   \<and> \<not> contains_ci ''s_o'' (Some (title issue_export))
   \<and> \<not> contains_ci ''s_o'' (description issue_export)"
  by code_simp

theorem query_filter_selects_witness:
  "no_wildcards ''LOGIN''
   \<and> query_filter (Some OPEN) None (Some ''alice'') (Some ''LOGIN'') (rows sample_db)
       = [issue_login]
   \<and> passes (Some OPEN) None (Some ''alice'') (Some ''LOGIN'') issue_login
   \<and> \<not> passes (Some OPEN) None (Some ''alice'') (Some ''LOGIN'') issue_export
   \<and> \<not> passes (Some OPEN) None (Some ''alice'') (Some ''LOGIN'') issue_docs"
proof -
  have plain: "Some ''LOGIN'' = None \<or> no_wildcards (the (Some ''LOGIN''))"
    by (simp add: no_wildcards_def)
  have p: "passes (Some OPEN) None (Some ''alice'') (Some ''LOGIN'') issue_login"
    "\<not> passes (Some OPEN) None (Some ''alice'') (Some ''LOGIN'') issue_export"
    "\<not> passes (Some OPEN) None (Some ''alice'') (Some ''LOGIN'') issue_docs"
    by code_simp+
  have r: "rows sample_db = [issue_login, issue_export, issue_docs]"
    by (simp add: sample_db_def)
  from query_filter_selects [OF plain, of "Some OPEN" None "Some ''alice''" sample_db]
  have "query_filter (Some OPEN) None (Some ''alice'') (Some ''LOGIN'') (rows sample_db)
          = [issue_login]"
    by (simp add: r p)
  with plain p show ?thesis by simp
qed

lemma insort_listed_before:
  assumes "sorted_wrt listed_before ys" and "\<forall>y\<in>set ys. issue_id x < issue_id y"
  shows "sorted_wrt listed_before (insort_key (\<lambda>i. - created_at i) x ys)"
  using assms
proof (induction ys)
  case Nil
  show ?case by simp
next
  case (Cons y ys)
  show ?case
  proof (cases "created_at y \<le> created_at x")
    case True
    with Cons.prems show ?thesis
      by (auto simp: listed_before_def)
  next
    case False
    with Cons.prems Cons.IH show ?thesis
      by (auto simp: listed_before_def set_insort_key)
  qed
qed

lemma order_by_listed_before:
  "sorted_wrt (<) (map issue_id xs) \<Longrightarrow> sorted_wrt listed_before (order_by_created_at_desc xs)"
  unfolding order_by_created_at_desc_def
proof (induction xs)
  case Nil
  show ?case by simp
next
  case (Cons x xs)
  then have "sorted_wrt listed_before (sort_key (\<lambda>i. - created_at i) xs)"
    and "\<forall>y\<in>set (sort_key (\<lambda>i. - created_at i) xs). issue_id x < issue_id y"
    by auto
  then show ?case by (simp add: insort_listed_before)
qed

lemma order_by_stable:
  "filter (\<lambda>i. created_at i = t) (order_by_created_at_desc xs) = filter (\<lambda>i. created_at i = t) xs"
proof -
  have "filter (\<lambda>i. - created_at i = - t) (sort_key (\<lambda>i. - created_at i) xs)
        = filter (\<lambda>i. - created_at i = - t) xs"
    by (rule sort_key_stable)
  then show ?thesis by (simp add: order_by_created_at_desc_def)
qed

lemma query_filter_keys_ascend:
  assumes "sorted_wrt (<) (map issue_id xs)"
  shows "sorted_wrt (<) (map issue_id (query_filter st pr asg search xs))"
  using assms
  by (simp add: query_filter_def Let_def sorted_wrt_map sorted_wrt_filter split: option.splits)

text \<open>
  C8. In a store that satisfies the invariant: an absent \<open>skip\<close> counts as 0 and an absent
  \<open>limit\<close> as 100; the request is refused exactly when \<open>skip\<close> is negative or \<open>limit\<close> is not
  between 1 and 1000; otherwise the result is the filtered rows, ordered, without the first
  \<open>skip\<close> and cut after \<open>limit\<close>. The ordered rows descend in \<open>created_at\<close>, rows created at
  the same time stand in the order in which they are stored, which is the order of their
  keys, and so does every page.
\<close>

theorem list_issues_order_and_pages:
  assumes "store_inv d"
  shows "list_issues st pr asg search skip_param limit_param d =
       list_issues st pr asg search
         (Some (case skip_param of None \<Rightarrow> 0 | Some n \<Rightarrow> n))
         (Some (case limit_param of None \<Rightarrow> 100 | Some n \<Rightarrow> n)) d
   \<and> (isl (list_issues st pr asg search (Some skip) (Some limit) d)
        \<longleftrightarrow> skip < 0 \<or> limit < 1 \<or> 1000 < limit)
   \<and> (0 \<le> skip \<and> 1 \<le> limit \<and> limit \<le> 1000 \<longrightarrow>
        list_issues st pr asg search (Some skip) (Some limit) d =
          Inr (take (nat limit) (drop (nat skip)
                 (order_by_created_at_desc (query_filter st pr asg search (rows d))))))
   \<and> sorted_wrt listed_before (order_by_created_at_desc (query_filter st pr asg search (rows d)))
   \<and> filter (\<lambda>i. created_at i = t) (order_by_created_at_desc (query_filter st pr asg search (rows d)))
       = filter (\<lambda>i. created_at i = t) (query_filter st pr asg search (rows d))
   \<and> (\<forall>result. list_issues st pr asg search skip_param limit_param d = Inr result \<longrightarrow>
         sorted_wrt listed_before result)"
proof -
  let ?full = "order_by_created_at_desc (query_filter st pr asg search (rows d))"
  from assms have "sorted_wrt (<) (map issue_id (rows d))" by (simp add: store_inv_def)
  then have "sorted_wrt (<) (map issue_id (query_filter st pr asg search (rows d)))"
    by (rule query_filter_keys_ascend)
  then have full: "sorted_wrt listed_before ?full" by (rule order_by_listed_before)
  have page: "sorted_wrt listed_before (take n (drop m ?full))" for n m
    using full by simp
  have res: "sorted_wrt listed_before result"
    if "list_issues st pr asg search skip_param limit_param d = Inr result" for result
    using that page
    by (auto simp: list_issues_def Let_def offset_def limit_to_def split: if_splits)
  have defaults: "list_issues st pr asg search skip_param limit_param d =
       list_issues st pr asg search
         (Some (case skip_param of None \<Rightarrow> 0 | Some n \<Rightarrow> n))
         (Some (case limit_param of None \<Rightarrow> 100 | Some n \<Rightarrow> n)) d"
    by (simp add: list_issues_def)
  have refused: "isl (list_issues st pr asg search (Some skip) (Some limit) d)
        \<longleftrightarrow> skip < 0 \<or> limit < 1 \<or> 1000 < limit"
    by (simp add: list_issues_def)
  have accepted: "0 \<le> skip \<and> 1 \<le> limit \<and> limit \<le> 1000 \<longrightarrow>
        list_issues st pr asg search (Some skip) (Some limit) d =
          Inr (take (nat limit) (drop (nat skip) ?full))"
    by (simp add: list_issues_def offset_def limit_to_def)
  from defaults refused accepted full order_by_stable [of t] res show ?thesis by blast
qed

theorem list_issues_order_and_pages_witness:
  "store_inv sample_db
   \<and> list_issues None None None None None None sample_db
       = Inr [issue_docs, issue_login, issue_export]
   \<and> list_issues None None None None (Some 1) (Some 2) sample_db
       = Inr [issue_login, issue_export]
   \<and> listed_before issue_docs issue_login
   \<and> listed_before issue_login issue_export
   \<and> isl (list_issues None None None None (Some 0) (Some 1001) sample_db)"
proof -
  have inv: "store_inv sample_db" by (rule sample_store_inv)
  have full: "order_by_created_at_desc (query_filter None None None None (rows sample_db))
                = [issue_docs, issue_login, issue_export]"
    by code_simp
  have before: "listed_before issue_docs issue_login" "listed_before issue_login issue_export"
    by code_simp+
  note facts = list_issues_order_and_pages [OF inv, of None None None None]
  from facts [of None None 0 100]
  have all: "list_issues None None None None None None sample_db
               = Inr [issue_docs, issue_login, issue_export]"
    by (simp add: full)
  from facts [of "Some 1" "Some 2" 1 2]
  have page: "list_issues None None None None (Some 1) (Some 2) sample_db
                = Inr [issue_login, issue_export]"
    by (simp add: full)
  from facts [of None None 0 1001]
  have refused: "isl (list_issues None None None None (Some 0) (Some 1001) sample_db)"
    by simp
  from inv all page before refused show ?thesis by simp
qed

end
